theory Spec2Isabelle
  imports Main "HOL-Library.AList"
begin

section \<open>Textual flow diagrams of the CBGM: a shallow embedding of lib/textual\_flow.py\<close>

text \<open>
  The development follows the source file top down: the colour helpers, the search for
  the best parents of one witness (\<open>get_parents\<close>), the entry point
  (\<open>textual_flow\<close>) and the class \<open>TextualFlow\<close> with its graph building
  (\<open>draw_diagram\<close>).  Exceptions of the source are values of the type \<open>error\<close>;
  a function that may raise returns \<open>error + 'a\<close>.
\<close>

datatype error =
  ValueError | TypeError | KeyError | IndexError | AssertionError | ForestError

subsection \<open>Python's rendering of integers\<close>

definition digit_char :: "nat \<Rightarrow> char" where
  "digit_char d = ''0123456789abcdef'' ! d"

text \<open>The digits of a natural number in a base between 2 and 16, most significant first.\<close>

function digits_of :: "nat \<Rightarrow> nat \<Rightarrow> string" where
  "digits_of b n =
     (if b < 2 \<or> n < b then [digit_char n]
      else digits_of b (n div b) @ [digit_char (n mod b)])"
  by pat_completeness auto
termination
  by (relation "measure snd") auto

declare digits_of.simps [simp del]

text \<open>\<open>str(i)\<close> and \<open>"{}".format(i)\<close> for an integer \<open>i\<close>.\<close>

definition str_int :: "int \<Rightarrow> string" where
  "str_int i = (if i < 0 then CHR ''-'' # digits_of 10 (nat (- i)) else digits_of 10 (nat i))"

text \<open>\<open>hex(i)\<close>: a sign, the prefix \<open>0x\<close> and the lower-case digits, never padded.\<close>

definition hex :: "int \<Rightarrow> string" where
  "hex i = (if i < 0 then ''-0x'' @ digits_of 16 (nat (- i)) else ''0x'' @ digits_of 16 (nat i))"

text \<open>
  \<open>int(s, 16)\<close> on a string of hexadecimal digits.  Python also accepts a sign,
  surrounding white space and a \<open>0x\<close> prefix; the callers pass slices of palette
  entries, which have none of these, and the model raises \<open>ValueError\<close> on them.
\<close>

definition hex_value :: "char \<Rightarrow> nat option" where
  "hex_value c =
     (if c \<in> set ''0123456789'' then Some (of_char c - 48)
      else if c \<in> set ''abcdef'' then Some (of_char c - 87)
      else if c \<in> set ''ABCDEF'' then Some (of_char c - 55)
      else None)"

fun int16_acc :: "int \<Rightarrow> string \<Rightarrow> error + int" where
  "int16_acc acc [] = Inr acc"
| "int16_acc acc (c # cs) =
     (case hex_value c of
        None \<Rightarrow> Inl ValueError
      | Some d \<Rightarrow> int16_acc (16 * acc + int d) cs)"

definition int16 :: "string \<Rightarrow> error + int" where
  "int16 s = (if s = [] then Inl ValueError else int16_acc 0 s)"

subsection \<open>The palette\<close>

definition COLOURS :: "string list" where
  "COLOURS =
     [''#FF8A8A'', ''#FF86E3'', ''#FF86C2'', ''#FE8BF0'', ''#EA8DFE'', ''#DD88FD'', ''#AD8BFE'',
      ''#FFA4FF'', ''#EAA6EA'', ''#D698FE'', ''#CEA8F4'', ''#BCB4F3'', ''#A9C5EB'', ''#8CD1E6'',
      ''#8C8CFF'', ''#99C7FF'', ''#99E0FF'', ''#63E9FC'', ''#74FEF8'', ''#62FDCE'', ''#72FE95'',
      ''#4AE371'', ''#80B584'', ''#89FC63'', ''#36F200'', ''#66FF00'', ''#DFDF00'', ''#DFE32D'']"

definition ascii_lowercase :: string where
  "ascii_lowercase = ''abcdefghijklmnopqrstuvwxyz''"

text \<open>
  \<open>COLOURMAP = {x: COLOURS[(i * 10) % len(COLOURS)] for (i, x) in enumerate(ascii_lowercase)}\<close>;
  the keys are distinct, so the dictionary is the map of the association list.
\<close>

definition COLOURMAP :: "char \<rightharpoonup> string" where
  "COLOURMAP =
     map_of (map (\<lambda>(i, x). (x, COLOURS ! ((i * 10) mod length COLOURS)))
               (enumerate 0 ascii_lowercase))"

text \<open>\<open>COLOURMAP.get(c, '#cccccc')\<close>.\<close>

definition colour_of :: "char \<Rightarrow> string" where
  "colour_of c = (case COLOURMAP c of None \<Rightarrow> ''#cccccc'' | Some col \<Rightarrow> col)"

subsection \<open>\<open>darken\<close>\<close>

text \<open>The inner function \<open>dark\<close>: \<open>str(hex(max(x - by, 0)))[2:]\<close>.\<close>

definition dark :: "int \<Rightarrow> int \<Rightarrow> string" where
  "dark x by' = drop 2 (hex (max (x - by') 0))"

text \<open>
  \<open>col[0]\<close> raises \<open>IndexError\<close> on the empty string, the assertion fails on another
  first character, and the slices \<open>col[1:3]\<close>, \<open>col[3:5]\<close>, \<open>col[5:7]\<close> never
  raise but may be short or empty, where \<open>int\<close> raises.
\<close>

definition darken :: "string \<Rightarrow> int \<Rightarrow> error + string" where
  "darken col by' =
     (case col of
        [] \<Rightarrow> Inl IndexError
      | c # _ \<Rightarrow>
          if c \<noteq> CHR ''#'' then Inl AssertionError
          else
            (case int16 (take 2 (drop 1 col)) of
               Inl e \<Rightarrow> Inl e
             | Inr r \<Rightarrow>
                 (case int16 (take 2 (drop 3 col)) of
                    Inl e \<Rightarrow> Inl e
                  | Inr g \<Rightarrow>
                      (case int16 (take 2 (drop 5 col)) of
                         Inl e \<Rightarrow> Inl e
                       | Inr b \<Rightarrow> Inr (CHR ''#'' # dark r by' @ dark g by' @ dark b by')))))"

subsection \<open>\<open>get_parents\<close>: the best parents of one witness\<close>

text \<open>
  A parent candidate is the tuple \<open>(ancestor, rank, generation)\<close> that the coherence
  object returns; the ancestor is a witness id or \<open>None\<close>.  A combination is a list
  of candidates.
\<close>

type_synonym candidate = "string option \<times> int \<times> int"
type_synonym combination = "candidate list"

definition cand_id :: "candidate \<Rightarrow> string option" where
  "cand_id x = fst x"

definition cand_rank :: "candidate \<Rightarrow> int" where
  "cand_rank x = fst (snd x)"

definition cand_gen :: "candidate \<Rightarrow> int" where
  "cand_gen x = snd (snd x)"

text \<open>\<open>max\<close> of a generator: \<open>ValueError\<close> on the empty sequence.\<close>

definition py_max :: "int list \<Rightarrow> error + int" where
  "py_max xs = (case xs of [] \<Rightarrow> Inl ValueError | x # ys \<Rightarrow> Inr (fold max ys x))"

text \<open>
  The four variables that \<open>get_parents\<close> initialises before its loop over the
  connectivity values and updates inside it.
\<close>

record trackers =
  best_parents_by_rank :: combination
  best_rank :: "int option"
  best_parents_by_gen :: combination
  best_gen :: "int option"

definition fresh_trackers :: trackers where
  "fresh_trackers =
     \<lparr>best_parents_by_rank = [], best_rank = None, best_parents_by_gen = [], best_gen = None\<rparr>"

definition max_acceptable_gen :: int where
  "max_acceptable_gen = 2"

text \<open>Lines 99 to 106: the tracker of the best generation.\<close>

definition update_by_gen :: "trackers \<Rightarrow> combination \<Rightarrow> int \<Rightarrow> int \<Rightarrow> error + trackers" where
  "update_by_gen tr combination rank gen =
     (case best_gen tr of
        None \<Rightarrow> Inr (tr\<lparr>best_parents_by_gen := combination, best_gen := Some gen\<rparr>)
      | Some bg \<Rightarrow>
          if gen < bg then Inr (tr\<lparr>best_parents_by_gen := combination, best_gen := Some gen\<rparr>)
          else if gen = bg then
            (case py_max (map cand_rank (best_parents_by_gen tr)) of
               Inl e \<Rightarrow> Inl e
             | Inr r \<Rightarrow>
                 if rank < r
                 then Inr (tr\<lparr>best_parents_by_gen := combination, best_gen := Some gen\<rparr>)
                 else Inr tr)
          else Inr tr)"

text \<open>Lines 108 to 110: the tracker of the best rank.\<close>

definition update_by_rank :: "trackers \<Rightarrow> combination \<Rightarrow> int \<Rightarrow> trackers" where
  "update_by_rank tr combination rank =
     (case best_rank tr of
        None \<Rightarrow> tr\<lparr>best_parents_by_rank := combination, best_rank := Some rank\<rparr>
      | Some br \<Rightarrow>
          if rank < br then tr\<lparr>best_parents_by_rank := combination, best_rank := Some rank\<rparr>
          else tr)"

text \<open>
  One iteration of the loop over the combinations (lines 83 to 110).  The progress
  message of lines 84 to 87 only logs: \<open>count\<close> is at least one there and \<open>total\<close>
  is the positive length of the list, so neither the modulus nor the division raises.
\<close>

definition consider_combination :: "trackers \<Rightarrow> combination \<Rightarrow> error + trackers" where
  "consider_combination tr combination =
     (if combination = [] then Inr tr
      else
        (case py_max (map cand_rank combination) of
           Inl e \<Rightarrow> Inl e
         | Inr rank \<Rightarrow>
             (case py_max (map cand_gen combination) of
                Inl e \<Rightarrow> Inl e
              | Inr gen \<Rightarrow>
                  if gen > max_acceptable_gen then Inr tr
                  else
                    (case update_by_gen tr combination rank gen of
                       Inl e \<Rightarrow> Inl e
                     | Inr tr' \<Rightarrow> Inr (update_by_rank tr' combination rank)))))"

fun scan_combinations :: "trackers \<Rightarrow> combination list \<Rightarrow> error + trackers" where
  "scan_combinations tr [] = Inr tr"
| "scan_combinations tr (combination # rest) =
     (case consider_combination tr combination of
        Inl e \<Rightarrow> Inl e
      | Inr tr' \<Rightarrow> scan_combinations tr' rest)"

text \<open>
  Lines 114 to 123: the choice between the two trackers and the default for the top of
  an overlapping unit.  \<open>OL_PARENT\<close> is imported from \<open>lib/shared.py\<close>, which is
  not part of the sources at hand: it is the parameter \<open>ol\<close>, a value of the type of
  the parent column.
\<close>

definition choose_parents :: "string option \<Rightarrow> string option \<Rightarrow> trackers \<Rightarrow> combination" where
  "choose_parents ol w1_parent tr =
     (let parents = (if best_gen tr = Some 1 then best_parents_by_gen tr
                     else best_parents_by_rank tr)
      in if w1_parent = ol \<and> parents = [] then [(Some ''OL_PARENT'', - 1, 1)] else parents)"

text \<open>
  The coherence object of one witness at one variant unit, reduced to its method
  \<open>parent_combinations\<close> with the reading and the parent fixed: a function of the
  connectivity value, \<open>None\<close> where the call raises.
\<close>

type_synonym combinations_of = "int \<Rightarrow> combination list option"

text \<open>The dictionaries of the source are association lists in insertion order.\<close>

type_synonym parent_map = "(int \<times> combination) list"

text \<open>
  The loop over the connectivity values (lines 73 to 126).  The trackers are arguments of
  the loop: the source initialises them once, before it.  The result \<open>Inr None\<close> is
  the \<open>return None\<close> of line 80.
\<close>

fun threshold_loop ::
  "string option \<Rightarrow> string option \<Rightarrow> combinations_of \<Rightarrow> int list \<Rightarrow> trackers \<Rightarrow> parent_map
     \<Rightarrow> error + parent_map option" where
  "threshold_loop ol w1_parent combs [] tr parent_maps = Inr (Some parent_maps)"
| "threshold_loop ol w1_parent combs (conn_value # rest) tr parent_maps =
     (case combs conn_value of
        None \<Rightarrow> Inr None
      | Some combinations \<Rightarrow>
          (case scan_combinations tr combinations of
             Inl e \<Rightarrow> Inl e
           | Inr tr' \<Rightarrow>
               threshold_loop ol w1_parent combs rest tr'
                 (AList.update conn_value (choose_parents ol w1_parent tr') parent_maps)))"

text \<open>
  The provider: \<open>GenealogicalCoherence(db_file, w1, variant_unit)\<close> followed by
  \<open>parent_combinations(w1_reading, w1_parent, conn_value)\<close>.  The database file is
  fixed throughout and left out.  The class is not part of the sources at hand; its
  constructor and \<open>_generate\<close>, which run outside the \<open>try\<close>, are taken to
  return.
\<close>

type_synonym coherence =
  "string \<Rightarrow> string \<Rightarrow> string \<Rightarrow> string option \<Rightarrow> combinations_of"

definition get_parents ::
  "string option \<Rightarrow> coherence \<Rightarrow> string \<Rightarrow> string \<Rightarrow> string option \<Rightarrow> string \<Rightarrow> int list
     \<Rightarrow> error + parent_map option" where
  "get_parents ol coh w1 w1_reading w1_parent variant_unit connectivity =
     threshold_loop ol w1_parent (coh w1 variant_unit w1_reading w1_parent) connectivity
       fresh_trackers []"

subsection \<open>The directed graph\<close>

text \<open>
  The part of \<open>networkx.DiGraph\<close> that the source uses.  A node is any hashable
  Python value; here it is a witness id or \<open>None\<close>, the two kinds of value that
  reach \<open>add_edge\<close>.  Nodes and edges are kept in insertion order without
  repetition, as the dictionaries of the library keep them.  The source calls
  \<open>networkx.write_dot\<close>, a name that only the 1.x releases of the library export;
  their \<open>add_edge\<close> creates each end point that is missing and accepts every
  hashable value.
\<close>

type_synonym node = "string option"

record node_attrs =
  color :: string
  fillcolor :: string
  style :: string

record digraph =
  nodes :: "(node \<times> node_attrs option) list"
  edges :: "(node \<times> node) list"

definition empty_graph :: digraph where
  "empty_graph = \<lparr>nodes = [], edges = []\<rparr>"

definition has_node :: "digraph \<Rightarrow> node \<Rightarrow> bool" where
  "has_node G n = (n \<in> set (map fst (nodes G)))"

text \<open>One element \<open>(n, attrs)\<close> of \<open>add_nodes_from\<close>: a new node, or new attributes
  for a node that is there already.\<close>

definition add_node_with :: "node \<times> node_attrs \<Rightarrow> digraph \<Rightarrow> digraph" where
  "add_node_with na G = G\<lparr>nodes := AList.update (fst na) (Some (snd na)) (nodes G)\<rparr>"

definition add_nodes_from :: "(node \<times> node_attrs) list \<Rightarrow> digraph \<Rightarrow> digraph" where
  "add_nodes_from ws G = fold add_node_with ws G"

definition add_node :: "node \<Rightarrow> digraph \<Rightarrow> digraph" where
  "add_node n G = (if has_node G n then G else G\<lparr>nodes := nodes G @ [(n, None)]\<rparr>)"

definition add_edge :: "node \<Rightarrow> node \<Rightarrow> digraph \<Rightarrow> digraph" where
  "add_edge u v G =
     (let G' = add_node v (add_node u G)
      in if (u, v) \<in> set (edges G') then G' else G'\<lparr>edges := edges G' @ [(u, v)]\<rparr>)"

subsection \<open>\<open>TextualFlow.draw_diagram\<close>\<close>

text \<open>A row of the table \<open>cbgm\<close>: witness, label of its reading, label of the parent
  reading.\<close>

type_synonym row = "string \<times> string \<times> string option"

text \<open>\<open>self.parent_maps\<close>: for each witness what \<open>get_parents\<close> returned, a parent
  map or \<open>None\<close>.\<close>

type_synonym parent_maps = "(string \<times> parent_map option) list"

text \<open>\<open>"{}".format(x)\<close> for a witness id or \<open>None\<close>.\<close>

definition format_id :: "string option \<Rightarrow> string" where
  "format_id x = (case x of None \<Rightarrow> ''None'' | Some s \<Rightarrow> s)"

fun join :: "string \<Rightarrow> string list \<Rightarrow> string" where
  "join sep [] = []"
| "join sep [s] = s"
| "join sep (s # t # rest) = s @ sep @ join sep (t # rest)"

text \<open>
  Lines 263 to 266, \<open>self.parent_maps[w1][conn_value]\<close>: a missing key raises
  \<open>KeyError\<close>, and subscripting the \<open>None\<close> that \<open>get_parents\<close> returned for
  a witness raises \<open>TypeError\<close>.  The values of a parent map are lists, so the test
  \<open>parents is None\<close> that follows the subscript never holds.
\<close>

definition lookup_parents :: "parent_maps \<Rightarrow> string \<Rightarrow> int \<Rightarrow> error + combination" where
  "lookup_parents pms w1 conn_value =
     (case map_of pms w1 of
        None \<Rightarrow> Inl KeyError
      | Some None \<Rightarrow> Inl TypeError
      | Some (Some pm) \<Rightarrow>
          (case map_of pm conn_value of None \<Rightarrow> Inl KeyError | Some parents \<Rightarrow> Inr parents))"

text \<open>Lines 268 to 281: the entry of \<open>rank_mapping\<close> for a witness.\<close>

definition caption :: "string \<Rightarrow> string \<Rightarrow> combination \<Rightarrow> string" where
  "caption w1 w1_reading parents =
     (if length parents > 1 then
        w1 @ ''/['' @
        join '', '' (map (\<lambda>x. format_id (cand_id x) @ ''.'' @ str_int (cand_rank x)) parents) @
        ''] ('' @ w1_reading @ '')''
      else if length parents = 1 then
        (if cand_rank (parents ! 0) = 1 then w1 @ '' ('' @ w1_reading @ '')''
         else w1 @ ''/'' @ str_int (cand_rank (parents ! 0)) @ '' ('' @ w1_reading @ '')'')
      else w1 @ '' ('' @ w1_reading @ '')'')"

text \<open>Line 283: \<open>all(x[0] is None for x in parents)\<close>, true of the empty list.\<close>

definition null_parents :: "combination \<Rightarrow> bool" where
  "null_parents parents = list_all (\<lambda>x. cand_id x = None) parents"

record draw_state =
  graph :: digraph
  rank_mapping :: "(string \<times> string) list"
  warnings :: "string list"

text \<open>One iteration of the loop over the rows (lines 262 to 295).\<close>

definition draw_row :: "bool \<Rightarrow> parent_maps \<Rightarrow> int \<Rightarrow> row \<Rightarrow> draw_state \<Rightarrow> error + draw_state" where
  "draw_row perfect_only pms conn_value r st =
     (case r of (w1, w1_reading, w1_parent) \<Rightarrow>
        (case lookup_parents pms w1 conn_value of
           Inl e \<Rightarrow> Inl e
         | Inr parents \<Rightarrow>
             (let st' = st\<lparr>rank_mapping :=
                               AList.update w1 (caption w1 w1_reading parents) (rank_mapping st)\<rparr>
              in if null_parents parents then
                   (if w1 = ''A'' then Inr st'
                    else if perfect_only then Inl ForestError
                    else Inr (st'\<lparr>warnings := warnings st' @ [w1 @ '' has no parents'']\<rparr>))
                 else
                   Inr (st'\<lparr>graph := fold (\<lambda>p. add_edge (cand_id p) (Some w1)) parents
                                        (graph st')\<rparr>))))"

fun draw_rows :: "bool \<Rightarrow> parent_maps \<Rightarrow> int \<Rightarrow> row list \<Rightarrow> draw_state \<Rightarrow> error + draw_state" where
  "draw_rows perfect_only pms conn_value [] st = Inr st"
| "draw_rows perfect_only pms conn_value (r # rest) st =
     (case draw_row perfect_only pms conn_value r st of
        Inl e \<Rightarrow> Inl e
      | Inr st' \<Rightarrow> draw_rows perfect_only pms conn_value rest st')"

text \<open>
  What \<open>draw_diagram\<close> hands to the library and to \<open>dot\<close>: the graph as it stands
  before \<open>relabel_nodes\<close>, the mapping from the witnesses to their captions, and the
  name of the output file.  Lines 298 to 305 (\<open>relabel_nodes\<close>, the logged
  counts, \<open>write_dot\<close> and the call of \<open>dot\<close>) are calls into the library and
  the renderer and are not modelled: the result \<open>Inr\<close> stands for a loop that ended
  without exception and an output file that is known.  \<open>relabel_nodes\<close> looks up
  every key of the mapping among the nodes, and \<open>None\<close> is no node that the library
  supports; a statement that a build succeeds therefore takes the nodes from the rows,
  excludes selections that would add the node \<open>None\<close>, and shows both conditions
  for the graph that is handed over.
\<close>

record diagram =
  flow_graph :: digraph
  captions :: "(string \<times> string) list"
  output_file :: string
  warned :: "string list"

definition draw_diagram ::
  "bool \<Rightarrow> (int \<times> string) list \<Rightarrow> parent_maps \<Rightarrow> int \<Rightarrow> row list \<Rightarrow> (node \<times> node_attrs) list
     \<Rightarrow> error + diagram" where
  "draw_diagram perfect_only output_files pms conn_value data witnesses =
     (case draw_rows perfect_only pms conn_value data
             \<lparr>graph = add_nodes_from witnesses empty_graph, rank_mapping = [],
              warnings = []\<rparr> of
        Inl e \<Rightarrow> Inl e
      | Inr st \<Rightarrow>
          (case map_of output_files conn_value of
             None \<Rightarrow> Inl KeyError
           | Some f \<Rightarrow>
               Inr \<lparr>flow_graph = graph st, captions = rank_mapping st, output_file = f,
                    warned = warnings st\<rparr>))"

subsection \<open>The class \<open>TextualFlow\<close>\<close>

text \<open>\<open>"textual_flow_{}_c{}{}.svg".format(variant_unit.replace('/', '_'), conn_value, suffix)\<close>\<close>

definition replace_slash :: "string \<Rightarrow> string" where
  "replace_slash s = map (\<lambda>c. if c = CHR ''/'' then CHR ''_'' else c) s"

definition output_name :: "string \<Rightarrow> int \<Rightarrow> string \<Rightarrow> string" where
  "output_name variant_unit conn_value suffix =
     ''textual_flow_'' @ replace_slash variant_unit @ ''_c'' @ str_int conn_value @ suffix @ ''.svg''"

text \<open>
  The loop of the constructor (lines 167 to 179) over the connectivity values, with the
  files that exist as a list of names.  The state is the pair of \<open>self.output_files\<close>
  and \<open>self.connectivity\<close>.
\<close>

fun check_outputs ::
  "string list \<Rightarrow> string \<Rightarrow> string \<Rightarrow> int list \<Rightarrow> (int \<times> string) list \<times> int list
     \<Rightarrow> (int \<times> string) list \<times> int list" where
  "check_outputs fs variant_unit suffix [] st = st"
| "check_outputs fs variant_unit suffix (conn_value # rest) st =
     (if output_name variant_unit conn_value suffix \<in> set fs
      then check_outputs fs variant_unit suffix rest st
      else check_outputs fs variant_unit suffix rest
             (AList.update conn_value (output_name variant_unit conn_value suffix) (fst st),
              snd st @ [conn_value]))"

text \<open>Lines 228 to 231: the node of a row with its colours.  \<open>x[1][0]\<close> raises
  \<open>IndexError\<close> on an empty label.\<close>

definition witness_node :: "row \<Rightarrow> error + node \<times> node_attrs" where
  "witness_node x =
     (case fst (snd x) of
        [] \<Rightarrow> Inl IndexError
      | c # _ \<Rightarrow>
          (case darken (colour_of c) 75 of
             Inl e \<Rightarrow> Inl e
           | Inr d \<Rightarrow> Inr (Some (fst x), \<lparr>color = d, fillcolor = colour_of c, style = ''filled''\<rparr>)))"

fun witness_nodes :: "row list \<Rightarrow> error + (node \<times> node_attrs) list" where
  "witness_nodes [] = Inr []"
| "witness_nodes (x # rest) =
     (case witness_node x of
        Inl e \<Rightarrow> Inl e
      | Inr n \<Rightarrow> (case witness_nodes rest of Inl e \<Rightarrow> Inl e | Inr ns \<Rightarrow> Inr (n # ns)))"

text \<open>Lines 234 to 240 without MPI: the parents of each witness, for the connectivity
  values that are left.\<close>

fun collect_parent_maps ::
  "string option \<Rightarrow> coherence \<Rightarrow> string \<Rightarrow> int list \<Rightarrow> row list \<Rightarrow> parent_maps
     \<Rightarrow> error + parent_maps" where
  "collect_parent_maps ol coh variant_unit connectivity [] pms = Inr pms"
| "collect_parent_maps ol coh variant_unit connectivity ((w1, w1_reading, w1_parent) # rest) pms =
     (case get_parents ol coh w1 w1_reading w1_parent variant_unit connectivity of
        Inl e \<Rightarrow> Inl e
      | Inr parent_maps \<Rightarrow>
          collect_parent_maps ol coh variant_unit connectivity rest
            (AList.update w1 parent_maps pms))"

text \<open>
  Lines 252 and 253: one diagram per connectivity value.  The result is the list of the
  diagrams written so far and the exception that ended the loop, if any.
\<close>

fun draw_diagrams ::
  "bool \<Rightarrow> (int \<times> string) list \<Rightarrow> parent_maps \<Rightarrow> row list \<Rightarrow> (node \<times> node_attrs) list
     \<Rightarrow> int list \<Rightarrow> diagram list \<Rightarrow> diagram list \<times> error option" where
  "draw_diagrams perfect_only output_files pms data witnesses [] drawn = (drawn, None)"
| "draw_diagrams perfect_only output_files pms data witnesses (conn_value # rest) drawn =
     (case draw_diagram perfect_only output_files pms conn_value data witnesses of
        Inl e \<Rightarrow> (drawn, Some e)
      | Inr d \<Rightarrow> draw_diagrams perfect_only output_files pms data witnesses rest (drawn @ [d]))"

text \<open>
  The constructor without MPI, which runs the whole build of one variant unit
  (\<open>__init__\<close> and the method \<open>textual_flow\<close>).  \<open>db\<close> is the query of line 220:
  the rows of a variant unit.  \<open>fs\<close> lists the files that exist when the constructor
  starts.
\<close>

definition TextualFlow ::
  "string option \<Rightarrow> coherence \<Rightarrow> (string \<Rightarrow> row list) \<Rightarrow> string list \<Rightarrow> string \<Rightarrow> int list
     \<Rightarrow> bool \<Rightarrow> string \<Rightarrow> diagram list \<times> error option" where
  "TextualFlow ol coh db fs variant_unit connectivity perfect_only suffix =
     (case check_outputs fs variant_unit suffix connectivity ([], []) of
        (output_files, self_connectivity) \<Rightarrow>
          if output_files = [] then ([], None)
          else
            (case witness_nodes (db variant_unit) of
               Inl e \<Rightarrow> ([], Some e)
             | Inr witnesses \<Rightarrow>
                 (case collect_parent_maps ol coh variant_unit self_connectivity
                         (db variant_unit) [] of
                    Inl e \<Rightarrow> ([], Some e)
                  | Inr pms \<Rightarrow>
                      draw_diagrams perfect_only output_files pms (db variant_unit) witnesses
                        self_connectivity [])))"

subsection \<open>The entry point \<open>textual_flow\<close>\<close>

text \<open>
  The branch of the entry point that runs when \<open>OMPI_COMM_WORLD_SIZE\<close> is not set
  (lines 156 to 160); the other branches need the module \<open>mpisupport\<close>.  An exception
  of one build leaves the loop.  The files that a build wrote exist for the builds after
  it.
\<close>

fun run_units ::
  "string option \<Rightarrow> coherence \<Rightarrow> (string \<Rightarrow> row list) \<Rightarrow> int list \<Rightarrow> string list \<Rightarrow> string list
     \<Rightarrow> diagram list \<Rightarrow> diagram list \<times> error option" where
  "run_units ol coh db connectivity [] fs drawn = (drawn, None)"
| "run_units ol coh db connectivity (vu # rest) fs drawn =
     (case TextualFlow ol coh db fs vu connectivity False [] of
        (ds, Some e) \<Rightarrow> (drawn @ ds, Some e)
      | (ds, None) \<Rightarrow>
          run_units ol coh db connectivity rest (fs @ map output_file ds) (drawn @ ds))"

definition textual_flow ::
  "string option \<Rightarrow> coherence \<Rightarrow> (string \<Rightarrow> row list) \<Rightarrow> string list \<Rightarrow> string list \<Rightarrow> int list
     \<Rightarrow> bool \<Rightarrow> string \<Rightarrow> diagram list \<times> error option" where
  "textual_flow ol coh db fs variant_units connectivity perfect_only suffix =
     run_units ol coh db connectivity variant_units fs []"

subsection \<open>The selection rules as the specification words them\<close>

text \<open>
  The definitions of this subsection are not taken from the source.  They restate the
  rules of the specification, and the theorems below compare them with the functions
  above.
\<close>

definition max_rank :: "combination \<Rightarrow> int" where
  "max_rank c = Max (set (map cand_rank c))"

definition max_gen :: "combination \<Rightarrow> int" where
  "max_gen c = Max (set (map cand_gen c))"

text \<open>The combinations that survive the filter: not empty, and of generation at most 2.\<close>

definition survivors :: "combination list \<Rightarrow> combination list" where
  "survivors cs = filter (\<lambda>c. c \<noteq> [] \<and> max_gen c \<le> 2) cs"

definition min_gen :: "combination list \<Rightarrow> int" where
  "min_gen S = Min (set (map max_gen S))"

text \<open>
  The winner by generation: among the combinations of the best generation, the first in
  input order whose maximum rank is the lowest.
\<close>

definition winner_by_generation :: "combination list \<Rightarrow> combination option" where
  "winner_by_generation S =
     (let tied = filter (\<lambda>c. max_gen c = min_gen S) S
      in find (\<lambda>c. max_rank c = Min (set (map max_rank tied))) tied)"

text \<open>The winner by rank: the first combination in input order whose maximum rank is the
  lowest of all.\<close>

definition winner_by_rank :: "combination list \<Rightarrow> combination option" where
  "winner_by_rank S = find (\<lambda>c. max_rank c = Min (set (map max_rank S))) S"

text \<open>The caption as the specification words it, from the generation of the candidates.\<close>

definition caption_by_generation :: "string \<Rightarrow> string \<Rightarrow> combination \<Rightarrow> string" where
  "caption_by_generation w1 w1_reading parents =
     (case parents of
        [] \<Rightarrow> w1 @ '' ('' @ w1_reading @ '')''
      | [x] \<Rightarrow>
          if cand_gen x = 1 then w1 @ '' ('' @ w1_reading @ '')''
          else w1 @ ''/'' @ str_int (cand_gen x) @ '' ('' @ w1_reading @ '')''
      | _ \<Rightarrow>
          w1 @ ''/['' @
          join '', '' (map (\<lambda>x. format_id (cand_id x) @ ''.'' @ str_int (cand_gen x)) parents) @
          ''] ('' @ w1_reading @ '')'')"

subsection \<open>Example scenarios\<close>

text \<open>
  The scenario of the specification: unit \<open>1:1\<close>, connectivity 3, the witnesses A, B
  and C, where the provider returns the combination \<open>[("A", 1, 1)]\<close> for B and
  \<open>[("A", 2, 1)]\<close> for C.
\<close>

definition example_ol :: "string option" where
  "example_ol = Some ''OL_PARENT''"

definition example_rows :: "row list" where
  "example_rows = [(''A'', ''a'', None), (''B'', ''b'', Some ''A''), (''C'', ''a'', Some ''A'')]"

definition example_db :: "string \<Rightarrow> row list" where
  "example_db variant_unit = example_rows"

definition example_coh :: coherence where
  "example_coh w1 variant_unit w1_reading w1_parent conn_value =
     (if w1 = ''B'' then Some [[(Some ''A'', 1, 1)]]
      else if w1 = ''C'' then Some [[(Some ''A'', 2, 1)]]
      else Some [])"

text \<open>
  The second scenario: the provider returns no combination for C, whose parent is the top
  of an overlapping unit.
\<close>

definition overlap_rows :: "row list" where
  "overlap_rows =
     [(''A'', ''a'', None), (''B'', ''b'', Some ''A''), (''C'', ''a'', Some ''OL_PARENT'')]"

definition overlap_db :: "string \<Rightarrow> row list" where
  "overlap_db variant_unit = overlap_rows"

definition overlap_coh :: coherence where
  "overlap_coh w1 variant_unit w1_reading w1_parent conn_value =
     (if w1 = ''B'' then Some [[(Some ''A'', 1, 1)]] else Some [])"

text \<open>
  A provider that finds the parent A of rank 5 for B within connectivity 10 and nothing
  within a smaller connectivity.
\<close>

definition loose_coh :: coherence where
  "loose_coh w1 variant_unit w1_reading w1_parent conn_value =
     (if w1 = ''B'' \<and> 10 \<le> conn_value then Some [[(Some ''A'', 5, 1)]] else Some [])"

text \<open>A provider that raises for the witness C and behaves as in the first scenario
  otherwise.\<close>

definition failing_coh :: coherence where
  "failing_coh w1 variant_unit w1_reading w1_parent conn_value =
     (if w1 = ''C'' then None
      else example_coh w1 variant_unit w1_reading w1_parent conn_value)"

text \<open>A provider that finds no combination at all, so that B and C have no parents.\<close>

definition silent_coh :: coherence where
  "silent_coh w1 variant_unit w1_reading w1_parent conn_value = Some []"

text \<open>
  A unit with the initial text A, a witness B with the parent A, a witness D for which
  the provider finds no combination, and a witness E whose only candidate has a null
  ancestor; with the nodes and the parent maps that the build computes for them at
  connectivity 3.
\<close>

definition orphan_rows :: "row list" where
  "orphan_rows =
     [(''A'', ''a'', None), (''B'', ''b'', Some ''A''), (''D'', ''d'', Some ''A''),
      (''E'', ''e'', Some ''A'')]"

definition orphan_coh :: coherence where
  "orphan_coh w1 variant_unit w1_reading w1_parent conn_value =
     (if w1 = ''B'' then Some [[(Some ''A'', 1, 1)]]
      else if w1 = ''E'' then Some [[(None, 0, 1)]]
      else Some [])"

definition orphan_maps :: parent_maps where
  "orphan_maps =
     [(''A'', Some [(3, [])]), (''B'', Some [(3, [(Some ''A'', 1, 1)])]),
      (''D'', Some [(3, [])]), (''E'', Some [(3, [(None, 0, 1)])])]"

definition orphan_nodes :: "(node \<times> node_attrs) list" where
  "orphan_nodes =
     [(Some ''A'', \<lparr>color = ''#b43f3f'', fillcolor = ''#FF8A8A'', style = ''filled''\<rparr>),
      (Some ''B'', \<lparr>color = ''#835da9'', fillcolor = ''#CEA8F4'', style = ''filled''\<rparr>),
      (Some ''D'', \<lparr>color = ''#b43b77'', fillcolor = ''#FF86C2'', style = ''filled''\<rparr>),
      (Some ''E'', \<lparr>color = ''#5e7aa0'', fillcolor = ''#A9C5EB'', style = ''filled''\<rparr>)]"

subsection \<open>Notions used in the statements and proofs\<close>

text \<open>
  The trackers after a scan, in terms of the list \<open>S\<close> of the combinations that survived
  so far.
\<close>

definition tracks :: "trackers \<Rightarrow> combination list \<Rightarrow> bool" where
  "tracks tr S =
     (if S = [] then tr = fresh_trackers
      else best_gen tr = Some (min_gen S) \<and>
           winner_by_generation S = Some (best_parents_by_gen tr) \<and>
           best_rank tr = Some (Min (set (map max_rank S))) \<and>
           winner_by_rank S = Some (best_parents_by_rank tr))"

definition node_set :: "digraph \<Rightarrow> node set" where
  "node_set G = set (map fst (nodes G))"

text \<open>The edges that the row of a witness adds, its selection being available.\<close>

definition row_edges :: "parent_maps \<Rightarrow> int \<Rightarrow> row \<Rightarrow> (node \<times> node) list" where
  "row_edges pms conn_value r =
     (case lookup_parents pms (fst r) conn_value of
        Inl e \<Rightarrow> []
      | Inr parents \<Rightarrow>
          if null_parents parents then []
          else map (\<lambda>x. (cand_id x, Some (fst r))) parents)"

text \<open>A row whose selection is empty or has null ancestors only.\<close>

definition orphan_row :: "parent_maps \<Rightarrow> int \<Rightarrow> row \<Rightarrow> bool" where
  "orphan_row pms conn_value r =
     (case lookup_parents pms (fst r) conn_value of
        Inl e \<Rightarrow> False
      | Inr parents \<Rightarrow> null_parents parents)"

text \<open>A row whose selection has null and non-null ancestors side by side.\<close>

definition mixed_row :: "parent_maps \<Rightarrow> int \<Rightarrow> row \<Rightarrow> bool" where
  "mixed_row pms conn_value r =
     (case lookup_parents pms (fst r) conn_value of
        Inl e \<Rightarrow> False
      | Inr parents \<Rightarrow>
          list_ex (\<lambda>x. cand_id x = None) parents \<and> list_ex (\<lambda>x. cand_id x \<noteq> None) parents)"

definition row_warning :: "parent_maps \<Rightarrow> int \<Rightarrow> row \<Rightarrow> string list" where
  "row_warning pms conn_value r =
     (if fst r \<noteq> ''A'' \<and> orphan_row pms conn_value r then [fst r @ '' has no parents''] else [])"

definition extends_by ::
  "draw_state \<Rightarrow> (node \<times> node) list \<Rightarrow> string list \<Rightarrow> draw_state \<Rightarrow> bool" where
  "extends_by st es ws st' =
     (set (edges (graph st')) = set (edges (graph st)) \<union> set es \<and>
      node_set (graph st') = node_set (graph st) \<union> fst ` set es \<union> snd ` set es \<and>
      warnings st' = warnings st @ ws)"

section \<open>Properties\<close>

subsection \<open>The border colour\<close>

text \<open>
  C10.  The border colour is not padded: the letter \<open>i\<close> has the palette colour
  \<open>#36F200\<close>, whose red and blue channels darken to 0 and are written with one digit
  each, so \<open>darken\<close> returns a string of fewer than 7 characters, which is not of the
  form \<open>#RRGGBB\<close>.
\<close>

theorem darken_unpadded:
  "COLOURMAP (CHR ''i'') = Some ''#36F200'' \<and>
   darken ''#36F200'' 75 = Inr ''#0a70'' \<and>
   (\<exists>s. darken (colour_of (CHR ''i'')) 75 = Inr s \<and> length s < 7)"
proof -
  have a: "COLOURMAP (CHR ''i'') = Some ''#36F200''"
    by code_simp
  have b: "darken ''#36F200'' 75 = Inr ''#0a70''"
    by code_simp
  have c: "colour_of (CHR ''i'') = ''#36F200''"
    by (simp add: colour_of_def a)
  show ?thesis
    using a b c by simp
qed

subsection \<open>The selection pass\<close>

lemma py_max_nonempty:
  assumes "xs \<noteq> []"
  shows "py_max xs = Inr (Max (set xs))"
proof -
  from assms obtain a list where xs: "xs = a # list"
    by (cases xs) auto
  show ?thesis
    unfolding xs py_max_def using Max.set_eq_fold [of a list] by simp
qed

lemma py_max_rank: "c \<noteq> [] \<Longrightarrow> py_max (map cand_rank c) = Inr (max_rank c)"
  by (simp add: py_max_nonempty max_rank_def)

lemma py_max_gen: "c \<noteq> [] \<Longrightarrow> py_max (map cand_gen c) = Inr (max_gen c)"
  by (simp add: py_max_nonempty max_gen_def)

lemma find_snoc:
  "find P (xs @ [y]) = (case find P xs of None \<Rightarrow> (if P y then Some y else None) | Some x \<Rightarrow> Some x)"
  by (induction xs) simp_all

lemma find_Min_exists:
  assumes "S \<noteq> []"
  shows "\<exists>b. find (\<lambda>c. f c = Min (set (map f S))) S = Some b \<and> b \<in> set S \<and> f b = Min (set (map f S))"
proof -
  have "Min (set (map f S)) \<in> set (map f S)"
    using assms by (intro Min_in) auto
  then obtain a where a: "a \<in> set S" "f a = Min (set (map f S))" by auto
  then have "find (\<lambda>c. f c = Min (set (map f S))) S \<noteq> None"
    by (auto simp: find_None_iff)
  then obtain b where b: "find (\<lambda>c. f c = Min (set (map f S))) S = Some b" by auto
  then show ?thesis by (auto simp: find_Some_iff)
qed

lemma find_Min_snoc:
  fixes f :: "'a \<Rightarrow> int"
  assumes "S \<noteq> []"
  shows "find (\<lambda>c. f c = Min (set (map f (S @ [x])))) (S @ [x]) =
         (if f x < Min (set (map f S)) then Some x
          else find (\<lambda>c. f c = Min (set (map f S))) S)"
proof -
  let ?m = "Min (set (map f S))"
  have m': "Min (set (map f (S @ [x]))) = min (f x) ?m"
    using assms by simp
  obtain b where b: "find (\<lambda>c. f c = ?m) S = Some b"
    using find_Min_exists [OF assms, of f] by blast
  show ?thesis
  proof (cases "f x < ?m")
    case True
    have "\<forall>a\<in>set S. ?m \<le> f a" using assms by simp
    with True have "\<not> (\<exists>a. a \<in> set S \<and> f a = f x)"
      by fastforce
    then have "find (\<lambda>c. f c = f x) S = None"
      unfolding find_None_iff .
    with True m' show ?thesis
      by (simp add: find_snoc min_def)
  next
    case False
    then have "min (f x) ?m = ?m" by simp
    with False b m' show ?thesis
      by (simp add: find_snoc)
  qed
qed

lemma winner_by_rank_single: "winner_by_rank [c] = Some c"
  by (simp add: winner_by_rank_def)

lemma winner_by_rank_snoc:
  assumes "S \<noteq> []"
  shows "winner_by_rank (S @ [c]) =
         (if max_rank c < Min (set (map max_rank S)) then Some c else winner_by_rank S)"
  unfolding winner_by_rank_def using find_Min_snoc [OF assms, of max_rank c] .

lemma min_gen_snoc:
  assumes "S \<noteq> []"
  shows "min_gen (S @ [c]) = min (max_gen c) (min_gen S)"
  using assms by (simp add: min_gen_def)

lemma min_gen_le:
  assumes "a \<in> set S"
  shows "min_gen S \<le> max_gen a"
  unfolding min_gen_def using assms by (intro Min_le) auto

lemma tied_nonempty:
  assumes "S \<noteq> []"
  shows "filter (\<lambda>c. max_gen c = min_gen S) S \<noteq> []"
proof -
  have "Min (set (map max_gen S)) \<in> set (map max_gen S)"
    using assms by (intro Min_in) auto
  then obtain a where "a \<in> set S" "max_gen a = min_gen S"
    by (auto simp: min_gen_def)
  then show ?thesis
    by (auto simp: filter_empty_conv)
qed

lemma winner_by_generation_single: "winner_by_generation [c] = Some c"
  by (simp add: winner_by_generation_def min_gen_def)

lemma winner_by_generation_rank:
  assumes "S \<noteq> []" and "winner_by_generation S = Some b"
  shows "max_rank b = Min (set (map max_rank (filter (\<lambda>c. max_gen c = min_gen S) S)))"
  using assms(2) unfolding winner_by_generation_def Let_def
  by (auto simp: find_Some_iff)

lemma winner_by_generation_snoc:
  assumes "S \<noteq> []" and b: "winner_by_generation S = Some b"
  shows "winner_by_generation (S @ [c]) =
         (if max_gen c < min_gen S then Some c
          else if max_gen c = min_gen S \<and> max_rank c < max_rank b then Some c
          else Some b)"
proof -
  let ?tied = "filter (\<lambda>c. max_gen c = min_gen S) S"
  have ne: "?tied \<noteq> []" using tied_nonempty [OF assms(1)] .
  have rb: "max_rank b = Min (set (map max_rank ?tied))"
    using winner_by_generation_rank [OF assms] .
  have wb: "find (\<lambda>c. max_rank c = Min (set (map max_rank ?tied))) ?tied = Some b"
    using b unfolding winner_by_generation_def Let_def .
  consider (less) "max_gen c < min_gen S" | (eq) "max_gen c = min_gen S" | (greater) "min_gen S < max_gen c"
    by linarith
  then show ?thesis
  proof cases
    case less
    then have g: "min_gen (S @ [c]) = max_gen c"
      using min_gen_snoc [OF assms(1), of c] by simp
    have "\<forall>a\<in>set S. max_gen a \<noteq> max_gen c"
      using less min_gen_le by fastforce
    then have "filter (\<lambda>a. max_gen a = max_gen c) S = []"
      by (simp add: filter_empty_conv)
    then show ?thesis
      using less by (simp add: winner_by_generation_def g)
  next
    case eq
    then have g: "min_gen (S @ [c]) = min_gen S"
      using min_gen_snoc [OF assms(1), of c] by simp
    have "winner_by_generation (S @ [c]) =
          find (\<lambda>a. max_rank a = Min (set (map max_rank (?tied @ [c])))) (?tied @ [c])"
      using eq by (simp add: winner_by_generation_def g)
    also have "\<dots> = (if max_rank c < Min (set (map max_rank ?tied)) then Some c
                      else find (\<lambda>a. max_rank a = Min (set (map max_rank ?tied))) ?tied)"
      using find_Min_snoc [OF ne, of max_rank c] .
    finally show ?thesis
      using eq rb wb by simp
  next
    case greater
    then have g: "min_gen (S @ [c]) = min_gen S"
      using min_gen_snoc [OF assms(1), of c] by simp
    show ?thesis
      using greater wb by (simp add: winner_by_generation_def g)
  qed
qed


lemma winner_by_generation_mem:
  assumes "winner_by_generation S = Some b"
  shows "b \<in> set S"
  using assms unfolding winner_by_generation_def Let_def
  by (metis (no_types, lifting) filter_is_subset find_Some_iff nth_mem subsetD)

lemma winner_by_rank_mem:
  assumes "winner_by_rank S = Some b"
  shows "b \<in> set S"
  using assms unfolding winner_by_rank_def
  by (metis (no_types, lifting) find_Some_iff nth_mem)

lemma consider_skip:
  assumes "c = [] \<or> 2 < max_gen c"
  shows "consider_combination tr c = Inr tr"
proof (cases "c = []")
  case True
  then show ?thesis by (simp add: consider_combination_def)
next
  case False
  with assms have "2 < max_gen c" by simp
  with False show ?thesis
    by (simp add: consider_combination_def py_max_rank py_max_gen max_acceptable_gen_def)
qed

lemma consider_first:
  assumes "c \<noteq> []" and "max_gen c \<le> 2"
  shows "\<exists>tr'. consider_combination fresh_trackers c = Inr tr' \<and> tracks tr' [c]"
  using assms
  by (simp add: consider_combination_def py_max_rank py_max_gen max_acceptable_gen_def
      update_by_gen_def update_by_rank_def fresh_trackers_def tracks_def
      winner_by_generation_single winner_by_rank_single min_gen_def)

lemma consider_next:
  assumes S: "S \<noteq> []" and tr: "tracks tr S" and ne: "[] \<notin> set S"
    and c: "c \<noteq> []" "max_gen c \<le> 2"
  shows "\<exists>tr'. consider_combination tr c = Inr tr' \<and> tracks tr' (S @ [c])"
proof -
  let ?b = "best_parents_by_gen tr"
  have bg: "best_gen tr = Some (min_gen S)"
    and wg: "winner_by_generation S = Some ?b"
    and br: "best_rank tr = Some (Min (set (map max_rank S)))"
    and wr: "winner_by_rank S = Some (best_parents_by_rank tr)"
    using tr S by (simp_all add: tracks_def)
  have "?b \<in> set S" using winner_by_generation_mem [OF wg] .
  with ne have "?b \<noteq> []" by auto
  then have pb: "py_max (map cand_rank ?b) = Inr (max_rank ?b)"
    by (rule py_max_rank)
  have mg: "min_gen (S @ [c]) = min (max_gen c) (min_gen S)"
    using min_gen_snoc [OF S] .
  have mr: "Min (set (map max_rank (S @ [c]))) = min (max_rank c) (Min (set (map max_rank S)))"
    using S by simp
  note wgs = winner_by_generation_snoc [OF S wg, of c]
  note wrs = winner_by_rank_snoc [OF S, of c]
  have "\<exists>tr1. update_by_gen tr c (max_rank c) (max_gen c) = Inr tr1 \<and>
           best_gen tr1 = Some (min_gen (S @ [c])) \<and>
           winner_by_generation (S @ [c]) = Some (best_parents_by_gen tr1) \<and>
           best_rank tr1 = best_rank tr \<and> best_parents_by_rank tr1 = best_parents_by_rank tr"
  proof (cases "max_gen c < min_gen S")
    case True
    then show ?thesis
      using bg mg wgs by (simp add: update_by_gen_def)
  next
    case False
    show ?thesis
    proof (cases "max_gen c = min_gen S \<and> max_rank c < max_rank ?b")
      case True
      then show ?thesis
        using bg pb mg wgs by (simp add: update_by_gen_def)
    next
      case nb: False
      with False bg pb have "update_by_gen tr c (max_rank c) (max_gen c) = Inr tr"
        by (auto simp: update_by_gen_def)
      moreover have "min_gen (S @ [c]) = min_gen S"
        using False mg by simp
      moreover have "winner_by_generation (S @ [c]) = Some ?b"
        using False nb wgs by auto
      ultimately show ?thesis
        using bg by simp
    qed
  qed
  then obtain tr1 where u: "update_by_gen tr c (max_rank c) (max_gen c) = Inr tr1"
    and g1: "best_gen tr1 = Some (min_gen (S @ [c]))"
    and w1: "winner_by_generation (S @ [c]) = Some (best_parents_by_gen tr1)"
    and r1: "best_rank tr1 = best_rank tr" "best_parents_by_rank tr1 = best_parents_by_rank tr"
    by blast
  let ?tr2 = "update_by_rank tr1 c (max_rank c)"
  have c2: "consider_combination tr c = Inr ?tr2"
    using c u by (simp add: consider_combination_def py_max_rank py_max_gen max_acceptable_gen_def)
  have "best_gen ?tr2 = best_gen tr1" "best_parents_by_gen ?tr2 = best_parents_by_gen tr1"
    by (simp_all add: update_by_rank_def split: option.splits)
  moreover have "best_rank ?tr2 = Some (Min (set (map max_rank (S @ [c]))))"
    using r1 br mr by (auto simp: update_by_rank_def min_def)
  moreover have "winner_by_rank (S @ [c]) = Some (best_parents_by_rank ?tr2)"
    using r1 br wr wrs by (auto simp: update_by_rank_def)
  ultimately have "tracks ?tr2 (S @ [c])"
    using g1 w1 by (simp add: tracks_def)
  with c2 show ?thesis by blast
qed

lemma consider_survivor:
  assumes "tracks tr S" and "[] \<notin> set S" and "c \<noteq> []" and "max_gen c \<le> 2"
  shows "\<exists>tr'. consider_combination tr c = Inr tr' \<and> tracks tr' (S @ [c])"
proof (cases "S = []")
  case True
  with assms(1) have "tr = fresh_trackers" by (simp add: tracks_def)
  with True consider_first [OF assms(3,4)] show ?thesis by simp
next
  case False
  then show ?thesis using consider_next assms by blast
qed

lemma scan_tracks:
  assumes "tracks tr S" and "[] \<notin> set S"
  shows "\<exists>tr'. scan_combinations tr cs = Inr tr' \<and> tracks tr' (S @ survivors cs)"
  using assms
proof (induction cs arbitrary: tr S)
  case Nil
  then show ?case by (simp add: survivors_def)
next
  case (Cons c cs)
  show ?case
  proof (cases "c \<noteq> [] \<and> max_gen c \<le> 2")
    case True
    then obtain tr1 where t1: "consider_combination tr c = Inr tr1" "tracks tr1 (S @ [c])"
      using consider_survivor [OF Cons.prems] by blast
    have "[] \<notin> set (S @ [c])" using Cons.prems True by auto
    from Cons.IH [OF t1(2) this] obtain tr' where
      "scan_combinations tr1 cs = Inr tr'" "tracks tr' ((S @ [c]) @ survivors cs)" by blast
    with t1 True show ?thesis by (simp add: survivors_def)
  next
    case False
    then have "c = [] \<or> 2 < max_gen c" by auto
    then have "consider_combination tr c = Inr tr" by (rule consider_skip)
    moreover from Cons.IH [OF Cons.prems] obtain tr' where
      "scan_combinations tr cs = Inr tr'" "tracks tr' (S @ survivors cs)" by blast
    ultimately show ?thesis using False by (auto simp: survivors_def)
  qed
qed

lemma scan_fresh:
  "\<exists>tr'. scan_combinations fresh_trackers cs = Inr tr' \<and> tracks tr' (survivors cs)"
  using scan_tracks [of fresh_trackers "[]" cs] by (simp add: tracks_def)

lemma survivors_nonempty: "[] \<notin> set (survivors cs)"
  by (simp add: survivors_def)

text \<open>
  C1.  One pass over the combinations of a single connectivity value, from fresh
  trackers, where at least one combination survives the filter (not empty, generation at
  most 2): if the least generation among the survivors is 1, the selection is the winner
  by generation, the first survivor of that generation whose maximum rank is the lowest;
  otherwise it is the first survivor whose maximum rank is the lowest of all, whatever
  its generation.
\<close>

theorem selection_pass:
  assumes "coh w1 vu r p c = Some combinations" and "survivors combinations \<noteq> []"
  shows "\<exists>parents. get_parents ol coh w1 r p vu [c] = Inr (Some [(c, parents)]) \<and>
           (if min_gen (survivors combinations) = 1
            then winner_by_generation (survivors combinations) = Some parents
            else winner_by_rank (survivors combinations) = Some parents)"
proof -
  let ?S = "survivors combinations"
  obtain tr where sc: "scan_combinations fresh_trackers combinations = Inr tr"
    and tr: "tracks tr ?S"
    using scan_fresh by blast
  have bg: "best_gen tr = Some (min_gen ?S)"
    and wg: "winner_by_generation ?S = Some (best_parents_by_gen tr)"
    and wr: "winner_by_rank ?S = Some (best_parents_by_rank tr)"
    using tr assms(2) by (simp_all add: tracks_def)
  have "best_parents_by_gen tr \<in> set ?S" "best_parents_by_rank tr \<in> set ?S"
    using winner_by_generation_mem [OF wg] winner_by_rank_mem [OF wr] by simp_all
  then have ne: "best_parents_by_gen tr \<noteq> []" "best_parents_by_rank tr \<noteq> []"
    using survivors_nonempty [of combinations] by auto
  have "get_parents ol coh w1 r p vu [c] = Inr (Some [(c, choose_parents ol p tr)])"
    using assms(1) sc by (simp add: get_parents_def)
  moreover have "choose_parents ol p tr =
      (if min_gen ?S = 1 then best_parents_by_gen tr else best_parents_by_rank tr)"
    using bg ne by (simp add: choose_parents_def)
  ultimately show ?thesis
    using wg wr by simp
qed

theorem selection_pass_witness:
  "survivors [[(Some ''B'', 3, 2)], [], [(Some ''C'', 5, 1)],
              [(Some ''D'', 4, 1), (Some ''E'', 1, 1)], [(Some ''F'', 1, 3)], [(Some ''G'', 4, 1)]] \<noteq> [] \<and>
   get_parents None (\<lambda>w vu r p c. Some [[(Some ''B'', 3, 2)], [], [(Some ''C'', 5, 1)],
              [(Some ''D'', 4, 1), (Some ''E'', 1, 1)], [(Some ''F'', 1, 3)], [(Some ''G'', 4, 1)]])
     ''W'' ''b'' (Some ''a'') ''1/1'' [3] =
     Inr (Some [(3, [(Some ''D'', 4, 1), (Some ''E'', 1, 1)])]) \<and>
   survivors [[(Some ''B'', 3, 2)], [(Some ''C'', 5, 2)], [(Some ''D'', 3, 2)]] \<noteq> [] \<and>
   get_parents None (\<lambda>w vu r p c. Some [[(Some ''B'', 3, 2)], [(Some ''C'', 5, 2)], [(Some ''D'', 3, 2)]])
     ''W'' ''b'' (Some ''a'') ''1/1'' [3] =
     Inr (Some [(3, [(Some ''B'', 3, 2)])])"
proof -
  let ?cs = "[[(Some ''B'', 3, 2)], [], [(Some ''C'', 5, 1)],
              [(Some ''D'', 4, 1), (Some ''E'', 1, 1)], [(Some ''F'', 1, 3)], [(Some ''G'', 4, 1)]]
             :: combination list"
  let ?ds = "[[(Some ''B'', 3, 2)], [(Some ''C'', 5, 2)], [(Some ''D'', 3, 2)]] :: combination list"
  have s1: "survivors ?cs = [[(Some ''B'', 3, 2)], [(Some ''C'', 5, 1)],
                             [(Some ''D'', 4, 1), (Some ''E'', 1, 1)], [(Some ''G'', 4, 1)]]"
    by (simp add: survivors_def max_gen_def cand_gen_def)
  have g1: "min_gen (survivors ?cs) = 1"
    unfolding s1 by (simp add: min_gen_def max_gen_def cand_gen_def)
  have w1: "winner_by_generation (survivors ?cs) = Some [(Some ''D'', 4, 1), (Some ''E'', 1, 1)]"
    unfolding s1
    by (simp add: winner_by_generation_def min_gen_def max_gen_def max_rank_def cand_gen_def
        cand_rank_def)
  have s2: "survivors ?ds = ?ds"
    by (simp add: survivors_def max_gen_def cand_gen_def)
  have g2: "min_gen (survivors ?ds) = 2"
    unfolding s2 by (simp add: min_gen_def max_gen_def cand_gen_def)
  have w2: "winner_by_rank (survivors ?ds) = Some [(Some ''B'', 3, 2)]"
    unfolding s2 by (simp add: winner_by_rank_def max_rank_def cand_rank_def)
  have n1: "survivors ?cs \<noteq> []" unfolding s1 by simp
  have n2: "survivors ?ds \<noteq> []" unfolding s2 by simp
  from selection_pass [of "\<lambda>w vu r p c. Some ?cs" "''W''" "''1/1''" "''b''" "Some ''a''" 3 ?cs None,
      OF refl n1]
  have a: "get_parents None (\<lambda>w vu r p c. Some ?cs) ''W'' ''b'' (Some ''a'') ''1/1'' [3] =
           Inr (Some [(3, [(Some ''D'', 4, 1), (Some ''E'', 1, 1)])])"
    unfolding g1 w1 by auto
  from selection_pass [of "\<lambda>w vu r p c. Some ?ds" "''W''" "''1/1''" "''b''" "Some ''a''" 3 ?ds None,
      OF refl n2]
  have b: "get_parents None (\<lambda>w vu r p c. Some ?ds) ''W'' ''b'' (Some ''a'') ''1/1'' [3] =
           Inr (Some [(3, [(Some ''B'', 3, 2)])])"
    unfolding g2 w2 by auto
  show ?thesis
    using n1 n2 a b by (intro conjI)
qed

text \<open>
  C7.  One pass from fresh trackers in which no combination survives the filter: the
  selection is the single candidate \<open>('OL_PARENT', -1, 1)\<close> if the parent of the
  witness is the sentinel \<open>OL_PARENT\<close>, and empty otherwise.
\<close>

theorem no_survivor_selection:
  assumes "coh w1 vu r p c = Some combinations" and "survivors combinations = []"
  shows "get_parents ol coh w1 r p vu [c] =
           Inr (Some [(c, if p = ol then [(Some ''OL_PARENT'', - 1, 1)] else [])])"
proof -
  obtain tr where sc: "scan_combinations fresh_trackers combinations = Inr tr"
    and tr: "tracks tr (survivors combinations)"
    using scan_fresh by blast
  from tr assms(2) have "tr = fresh_trackers" by (simp add: tracks_def)
  with sc assms(1) show ?thesis
    by (simp add: get_parents_def choose_parents_def fresh_trackers_def)
qed

theorem no_survivor_selection_witness:
  "survivors [[], [(Some ''F'', 1, 3)]] = [] \<and>
   get_parents (Some ''OL_PARENT'') (\<lambda>w vu r p c. Some [[], [(Some ''F'', 1, 3)]])
     ''W'' ''b'' (Some ''OL_PARENT'') ''1/1'' [3] = Inr (Some [(3, [(Some ''OL_PARENT'', - 1, 1)])]) \<and>
   get_parents (Some ''OL_PARENT'') (\<lambda>w vu r p c. Some [[], [(Some ''F'', 1, 3)]])
     ''W'' ''b'' (Some ''a'') ''1/1'' [3] = Inr (Some [(3, [])])"
proof -
  let ?cs = "[[], [(Some ''F'', 1, 3)]] :: combination list"
  have s: "survivors ?cs = []"
    by (simp add: survivors_def max_gen_def cand_gen_def)
  from no_survivor_selection [of "\<lambda>w vu r p c. Some ?cs" "''W''" "''1/1''" "''b''"
      "Some ''OL_PARENT''" 3 ?cs "Some ''OL_PARENT''", OF refl s]
  have a: "get_parents (Some ''OL_PARENT'') (\<lambda>w vu r p c. Some ?cs)
     ''W'' ''b'' (Some ''OL_PARENT'') ''1/1'' [3] = Inr (Some [(3, [(Some ''OL_PARENT'', - 1, 1)])])"
    by simp
  from no_survivor_selection [of "\<lambda>w vu r p c. Some ?cs" "''W''" "''1/1''" "''b''"
      "Some ''a''" 3 ?cs "Some ''OL_PARENT''", OF refl s]
  have b: "get_parents (Some ''OL_PARENT'') (\<lambda>w vu r p c. Some ?cs)
     ''W'' ''b'' (Some ''a'') ''1/1'' [3] = Inr (Some [(3, [])])"
    by simp
  show ?thesis
    using s a b by (intro conjI)
qed

subsection \<open>The graph operations and the loop over the rows\<close>

lemma node_set_add_node: "node_set (add_node n G) = insert n (node_set G)"
  by (auto simp: node_set_def add_node_def has_node_def)

lemma edges_add_node: "edges (add_node n G) = edges G"
  by (simp add: add_node_def)

lemma node_set_edges_update: "node_set (G\<lparr>edges := es\<rparr>) = node_set G"
  by (simp add: node_set_def)

lemma node_set_add_edge: "node_set (add_edge u v G) = insert u (insert v (node_set G))"
  by (auto simp: add_edge_def Let_def node_set_add_node node_set_edges_update)

lemma edges_add_edge: "set (edges (add_edge u v G)) = insert (u, v) (set (edges G))"
  by (auto simp: add_edge_def Let_def edges_add_node)

lemma edges_fold_add_edge:
  "set (edges (fold (\<lambda>p. add_edge (cand_id p) v) parents G)) =
     set (edges G) \<union> (\<lambda>x. (cand_id x, v)) ` set parents"
  by (induction parents arbitrary: G) (auto simp: edges_add_edge)

lemma node_set_fold_add_edge:
  "node_set (fold (\<lambda>p. add_edge (cand_id p) v) parents G) =
     node_set G \<union> cand_id ` set parents \<union> (if parents = [] then {} else {v})"
  by (induction parents arbitrary: G) (auto simp: node_set_add_edge)

lemma node_set_add_node_with: "node_set (add_node_with a G) = insert (fst a) (node_set G)"
  by (simp add: node_set_def add_node_with_def dom_update)

lemma node_set_add_nodes_from:
  "node_set (add_nodes_from ws G) = node_set G \<union> fst ` set ws"
  unfolding add_nodes_from_def
  by (induction ws arbitrary: G) (auto simp: node_set_add_node_with)

lemma edges_add_nodes_from: "edges (add_nodes_from ws G) = edges G"
  unfolding add_nodes_from_def
  by (induction ws arbitrary: G) (simp_all add: add_node_with_def)

lemma witness_nodes_fst:
  "witness_nodes data = Inr ws \<Longrightarrow> map fst ws = map (\<lambda>r. Some (fst r)) data"
proof (induction data arbitrary: ws)
  case Nil
  then show ?case by simp
next
  case (Cons a data)
  then show ?case
    by (auto simp: witness_node_def split: sum.splits list.splits)
qed


lemma extends_by_refl: "extends_by st [] [] st"
  by (simp add: extends_by_def)

lemma extends_by_trans:
  assumes "extends_by st es ws st1" and "extends_by st1 es' ws' st'"
  shows "extends_by st (es @ es') (ws @ ws') st'"
  using assms unfolding extends_by_def by (simp add: Un_ac image_Un)

lemma draw_row_lookup_fails:
  assumes "lookup_parents pms (fst r) c = Inl e"
  shows "draw_row po pms c r st = Inl e"
  using assms by (cases r) (simp add: draw_row_def)

lemma lookup_parents_error: "lookup_parents pms w c \<noteq> Inl ForestError"
  by (simp add: lookup_parents_def split: option.splits)

lemma draw_row_cases:
  assumes "lookup_parents pms (fst r) c = Inr parents"
  shows "(draw_row po pms c r st = Inl ForestError \<and> po \<and> fst r \<noteq> ''A'' \<and> orphan_row pms c r) \<or>
         (\<exists>st'. draw_row po pms c r st = Inr st' \<and>
            \<not> (po \<and> fst r \<noteq> ''A'' \<and> orphan_row pms c r) \<and>
            extends_by st (row_edges pms c r) (row_warning pms c r) st' \<and>
            rank_mapping st' =
              AList.update (fst r) (caption (fst r) (fst (snd r)) parents) (rank_mapping st))"
proof -
  obtain w rd p where r: "r = (w, rd, p)"
    by (cases r) auto
  let ?st1 = "st\<lparr>rank_mapping := AList.update w (caption w rd parents) (rank_mapping st)\<rparr>"
  have lp: "lookup_parents pms w c = Inr parents"
    using assms r by simp
  show ?thesis
  proof (cases "null_parents parents")
    case True
    then have re: "row_edges pms c r = []" and orph: "orphan_row pms c r"
      using lp r by (simp_all add: row_edges_def orphan_row_def)
    show ?thesis
    proof (cases "w = ''A''")
      case A: True
      have "draw_row po pms c r st = Inr ?st1"
        using lp True A r by (simp add: draw_row_def null_parents_def)
      then show ?thesis
        using re A r by (simp add: row_warning_def extends_by_def)
    next
      case nA: False
      show ?thesis
      proof (cases po)
        case po: True
        have "draw_row po pms c r st = Inl ForestError"
          using lp True nA r po by (simp add: draw_row_def null_parents_def)
        then show ?thesis
          using po nA orph r by simp
      next
        case npo: False
        have "draw_row po pms c r st =
                Inr (?st1\<lparr>warnings := warnings st @ [w @ '' has no parents'']\<rparr>)"
          using lp True nA npo r by (simp add: draw_row_def null_parents_def)
        then show ?thesis
          using re nA npo orph r by (simp add: row_warning_def extends_by_def)
      qed
    qed
  next
    case False
    then have ne: "parents \<noteq> []"
      by (auto simp: null_parents_def)
    let ?st2 = "?st1\<lparr>graph := fold (\<lambda>p. add_edge (cand_id p) (Some w)) parents (graph st)\<rparr>"
    have d: "draw_row po pms c r st = Inr ?st2"
      using lp False r by (simp add: draw_row_def null_parents_def)
    have re: "row_edges pms c r = map (\<lambda>x. (cand_id x, Some w)) parents"
      using lp False r by (simp add: row_edges_def)
    have no: "\<not> orphan_row pms c r"
      using lp False r by (simp add: orphan_row_def)
    have e: "set (edges (graph ?st2)) = set (edges (graph st)) \<union> set (row_edges pms c r)"
      by (simp add: edges_fold_add_edge re)
    have "snd ` set (row_edges pms c r) = {Some w}"
      using ne by (cases parents) (auto simp: re image_image)
    moreover have "fst ` set (row_edges pms c r) = cand_id ` set parents"
      by (simp add: re image_image)
    ultimately have v: "node_set (graph ?st2) =
        node_set (graph st) \<union> fst ` set (row_edges pms c r) \<union> snd ` set (row_edges pms c r)"
      using ne by (simp add: node_set_fold_add_edge)
    have w: "warnings ?st2 = warnings st @ row_warning pms c r"
      using no by (simp add: row_warning_def)
    have x: "extends_by st (row_edges pms c r) (row_warning pms c r) ?st2"
      unfolding extends_by_def using e v w by (intro conjI)
    have m: "rank_mapping ?st2 =
        AList.update (fst r) (caption (fst r) (fst (snd r)) parents) (rank_mapping st)"
      using r by simp
    show ?thesis
      using d no x m by (intro disjI2 exI [of _ ?st2] conjI) simp_all
  qed
qed

lemma draw_rows_available:
  assumes "draw_rows po pms c rows st = Inr st'"
  shows "\<forall>r\<in>set rows. \<exists>parents. lookup_parents pms (fst r) c = Inr parents"
  using assms
proof (induction rows arbitrary: st)
  case Nil
  then show ?case by simp
next
  case (Cons r rows)
  from Cons.prems obtain st1 where s1: "draw_row po pms c r st = Inr st1"
    and s2: "draw_rows po pms c rows st1 = Inr st'"
    by (auto split: sum.splits)
  have "\<exists>parents. lookup_parents pms (fst r) c = Inr parents"
  proof (cases "lookup_parents pms (fst r) c")
    case (Inl e)
    with s1 draw_row_lookup_fails show ?thesis by fastforce
  next
    case (Inr parents)
    then show ?thesis by simp
  qed
  with Cons.IH [OF s2] show ?case by simp
qed

lemma draw_rows_cases:
  assumes "\<forall>r\<in>set rows. \<exists>parents. lookup_parents pms (fst r) c = Inr parents"
  shows "(draw_rows po pms c rows st = Inl ForestError \<and>
            po \<and> (\<exists>r\<in>set rows. fst r \<noteq> ''A'' \<and> orphan_row pms c r)) \<or>
         (\<exists>st'. draw_rows po pms c rows st = Inr st' \<and>
            \<not> (po \<and> (\<exists>r\<in>set rows. fst r \<noteq> ''A'' \<and> orphan_row pms c r)) \<and>
            extends_by st (concat (map (row_edges pms c) rows))
              (concat (map (row_warning pms c) rows)) st')"
  using assms
proof (induction rows arbitrary: st)
  case Nil
  then show ?case by (simp add: extends_by_refl)
next
  case (Cons r rows)
  from Cons.prems obtain parents where lp: "lookup_parents pms (fst r) c = Inr parents"
    by auto
  have av: "\<forall>r\<in>set rows. \<exists>parents. lookup_parents pms (fst r) c = Inr parents"
    using Cons.prems by simp
  from draw_row_cases [OF lp, of po st] show ?case
  proof (elim disjE exE conjE)
    assume a: "draw_row po pms c r st = Inl ForestError"
      and b: "po" "fst r \<noteq> ''A''" "orphan_row pms c r"
    from a have "draw_rows po pms c (r # rows) st = Inl ForestError"
      by simp
    moreover from b have "\<exists>x\<in>set (r # rows). fst x \<noteq> ''A'' \<and> orphan_row pms c x"
      by simp
    ultimately show ?thesis using b(1) by (intro disjI1 conjI)
  next
    fix st1
    assume s1: "draw_row po pms c r st = Inr st1"
      and n1: "\<not> (po \<and> fst r \<noteq> ''A'' \<and> orphan_row pms c r)"
      and x1: "extends_by st (row_edges pms c r) (row_warning pms c r) st1"
    from Cons.IH [OF av, of st1] show ?thesis
    proof (elim disjE exE conjE)
      assume a: "draw_rows po pms c rows st1 = Inl ForestError"
        and b: "po" "\<exists>r\<in>set rows. fst r \<noteq> ''A'' \<and> orphan_row pms c r"
      from a s1 have "draw_rows po pms c (r # rows) st = Inl ForestError"
        by simp
      moreover from b(2) have "\<exists>x\<in>set (r # rows). fst x \<noteq> ''A'' \<and> orphan_row pms c x"
        by auto
      ultimately show ?thesis using b(1) by (intro disjI1 conjI)
    next
      fix st'
      assume s2: "draw_rows po pms c rows st1 = Inr st'"
        and n2: "\<not> (po \<and> (\<exists>r\<in>set rows. fst r \<noteq> ''A'' \<and> orphan_row pms c r))"
        and x2: "extends_by st1 (concat (map (row_edges pms c) rows))
              (concat (map (row_warning pms c) rows)) st'"
      have "draw_rows po pms c (r # rows) st = Inr st'"
        using s1 s2 by simp
      moreover have "\<not> (po \<and> (\<exists>x\<in>set (r # rows). fst x \<noteq> ''A'' \<and> orphan_row pms c x))"
        using n1 n2 by simp
      moreover have "extends_by st (concat (map (row_edges pms c) (r # rows)))
              (concat (map (row_warning pms c) (r # rows))) st'"
        using extends_by_trans [OF x1 x2] by simp
      ultimately show ?thesis by (intro disjI2 exI [of _ st'] conjI)
    qed
  qed
qed

subsection \<open>The diagram of one connectivity value\<close>

lemma orphan_row_fst: "fst r = fst r' \<Longrightarrow> orphan_row pms c r = orphan_row pms c r'"
  by (simp add: orphan_row_def)

lemma row_edges_target:
  assumes "(n, v) \<in> set (row_edges pms c r)"
  shows "v = Some (fst r) \<and> \<not> orphan_row pms c r"
  using assms by (auto simp: row_edges_def orphan_row_def split: sum.splits if_splits)

lemma row_edges_source:
  "(Some a, Some w) \<in> set (row_edges pms c r) \<longleftrightarrow>
     fst r = w \<and> (\<exists>parents x. lookup_parents pms (fst r) c = Inr parents \<and> x \<in> set parents \<and>
                    cand_id x = Some a)"
proof (cases "lookup_parents pms (fst r) c")
  case (Inl e)
  then show ?thesis by (auto simp: row_edges_def)
next
  case (Inr parents)
  show ?thesis
  proof (cases "null_parents parents")
    case True
    then have "\<forall>x\<in>set parents. cand_id x \<noteq> Some a"
      by (auto simp: null_parents_def list_all_iff)
    with True Inr show ?thesis by (auto simp: row_edges_def)
  next
    case False
    with Inr have re: "set (row_edges pms c r) = (\<lambda>x. (cand_id x, Some (fst r))) ` set parents"
      by (simp add: row_edges_def)
    have "(Some a, Some w) \<in> set (row_edges pms c r) \<longleftrightarrow>
               fst r = w \<and> (\<exists>x. x \<in> set parents \<and> cand_id x = Some a)"
    proof
      assume "(Some a, Some w) \<in> set (row_edges pms c r)"
      then obtain x where "x \<in> set parents" "(Some a, Some w) = (cand_id x, Some (fst r))"
        unfolding re by (rule imageE)
      then have "fst r = w" "x \<in> set parents \<and> cand_id x = Some a"
        by simp_all
      then show "fst r = w \<and> (\<exists>x. x \<in> set parents \<and> cand_id x = Some a)"
        by blast
    next
      assume "fst r = w \<and> (\<exists>x. x \<in> set parents \<and> cand_id x = Some a)"
      then obtain x where x: "x \<in> set parents" and "cand_id x = Some a" "fst r = w"
        by (elim conjE exE)
      then have "(Some a, Some w) = (cand_id x, Some (fst r))"
        by simp
      then show "(Some a, Some w) \<in> set (row_edges pms c r)"
        unfolding re using x by (rule image_eqI)
    qed
    then show ?thesis
      using Inr by simp
  qed
qed

lemma draw_diagram_cases:
  assumes "\<forall>r\<in>set data. \<exists>parents. lookup_parents pms (fst r) c = Inr parents"
    and "map_of output_files c = Some f"
  shows "(draw_diagram po output_files pms c data ws = Inl ForestError \<and>
            po \<and> (\<exists>r\<in>set data. fst r \<noteq> ''A'' \<and> orphan_row pms c r)) \<or>
         (\<exists>d. draw_diagram po output_files pms c data ws = Inr d \<and>
            \<not> (po \<and> (\<exists>r\<in>set data. fst r \<noteq> ''A'' \<and> orphan_row pms c r)) \<and>
            set (edges (flow_graph d)) = (\<Union>r\<in>set data. set (row_edges pms c r)) \<and>
            node_set (flow_graph d) =
              fst ` set ws \<union> (\<Union>r\<in>set data. fst ` set (row_edges pms c r))
                \<union> (\<Union>r\<in>set data. snd ` set (row_edges pms c r)) \<and>
            warned d = concat (map (row_warning pms c) data) \<and>
            output_file d = f)"
proof -
  let ?st0 = "\<lparr>graph = add_nodes_from ws empty_graph, rank_mapping = [], warnings = []\<rparr>"
  from draw_rows_cases [OF assms(1), of po ?st0] show ?thesis
  proof (elim disjE exE conjE)
    assume a: "draw_rows po pms c data ?st0 = Inl ForestError"
      and b: "po" "\<exists>r\<in>set data. fst r \<noteq> ''A'' \<and> orphan_row pms c r"
    from a have "draw_diagram po output_files pms c data ws = Inl ForestError"
      by (simp add: draw_diagram_def)
    with b show ?thesis by (intro disjI1 conjI)
  next
    fix st'
    assume a: "draw_rows po pms c data ?st0 = Inr st'"
      and n: "\<not> (po \<and> (\<exists>r\<in>set data. fst r \<noteq> ''A'' \<and> orphan_row pms c r))"
      and x: "extends_by ?st0 (concat (map (row_edges pms c) data))
                (concat (map (row_warning pms c) data)) st'"
    let ?d = "\<lparr>flow_graph = graph st', captions = rank_mapping st', output_file = f,
               warned = warnings st'\<rparr>"
    have d: "draw_diagram po output_files pms c data ws = Inr ?d"
      using a assms(2) by (simp add: draw_diagram_def)
    have e: "set (edges (flow_graph ?d)) = (\<Union>r\<in>set data. set (row_edges pms c r))"
      using x by (simp add: extends_by_def edges_add_nodes_from empty_graph_def)
    have v: "node_set (flow_graph ?d) =
              fst ` set ws \<union> (\<Union>r\<in>set data. fst ` set (row_edges pms c r))
                \<union> (\<Union>r\<in>set data. snd ` set (row_edges pms c r))"
      using x by (simp add: extends_by_def node_set_add_nodes_from image_UN)
        (simp add: node_set_def empty_graph_def)
    have w: "warned ?d = concat (map (row_warning pms c) data)"
      using x by (simp add: extends_by_def)
    show ?thesis
      using d n e v w by (intro disjI2 exI [of _ ?d] conjI) simp_all
  qed
qed


lemma draw_diagram_available:
  assumes "draw_diagram po output_files pms c data ws = Inr d"
  shows "(\<forall>r\<in>set data. \<exists>parents. lookup_parents pms (fst r) c = Inr parents) \<and>
         (\<exists>f. map_of output_files c = Some f)"
proof -
  let ?st0 = "\<lparr>graph = add_nodes_from ws empty_graph, rank_mapping = [], warnings = []\<rparr>"
  from assms obtain st' where "draw_rows po pms c data ?st0 = Inr st'"
    by (auto simp: draw_diagram_def split: sum.splits)
  then have "\<forall>r\<in>set data. \<exists>parents. lookup_parents pms (fst r) c = Inr parents"
    by (rule draw_rows_available)
  moreover from assms have "\<exists>f. map_of output_files c = Some f"
    by (auto simp: draw_diagram_def split: sum.splits option.splits)
  ultimately show ?thesis by simp
qed

lemma row_edges_null_source:
  assumes "(None, v) \<in> set (row_edges pms c r)"
  shows "mixed_row pms c r"
proof (cases "lookup_parents pms (fst r) c")
  case (Inl e)
  with assms show ?thesis by (simp add: row_edges_def)
next
  case (Inr parents)
  with assms have np: "\<not> null_parents parents"
    and "(None, v) \<in> (\<lambda>x. (cand_id x, Some (fst r))) ` set parents"
    by (auto simp: row_edges_def split: if_splits)
  then obtain x where "x \<in> set parents" "cand_id x = None"
    by auto
  then have "list_ex (\<lambda>x. cand_id x = None) parents"
    unfolding list_ex_iff by blast
  moreover from np have "list_ex (\<lambda>x. cand_id x \<noteq> None) parents"
    by (simp add: null_parents_def list_all_iff list_ex_iff)
  ultimately show ?thesis
    using Inr by (simp add: mixed_row_def)
qed

lemma draw_rows_keys:
  assumes "draw_rows po pms c rows st = Inr st'"
  shows "fst ` set (rank_mapping st') = fst ` set (rank_mapping st) \<union> fst ` set rows"
  using assms
proof (induction rows arbitrary: st)
  case Nil
  then show ?case by simp
next
  case (Cons r rows)
  from Cons.prems obtain st1 where s1: "draw_row po pms c r st = Inr st1"
    and s2: "draw_rows po pms c rows st1 = Inr st'"
    by (auto split: sum.splits)
  from draw_rows_available [OF Cons.prems] obtain parents
    where lp: "lookup_parents pms (fst r) c = Inr parents"
    by auto
  from draw_row_cases [OF lp, of po st] s1
  have "rank_mapping st1 =
          AList.update (fst r) (caption (fst r) (fst (snd r)) parents) (rank_mapping st)"
    by auto
  then have "fst ` set (rank_mapping st1) = insert (fst r) (fst ` set (rank_mapping st))"
    by (simp add: dom_update)
  with Cons.IH [OF s2] show ?case by auto
qed

lemma draw_diagram_keys:
  assumes "draw_diagram po output_files pms c data ws = Inr d"
  shows "fst ` set (captions d) = fst ` set data"
proof -
  let ?st0 = "\<lparr>graph = add_nodes_from ws empty_graph, rank_mapping = [], warnings = []\<rparr>"
  from assms obtain st' where s: "draw_rows po pms c data ?st0 = Inr st'"
    and c: "captions d = rank_mapping st'"
    by (auto simp: draw_diagram_def split: sum.splits option.splits)
  from draw_rows_keys [OF s] show ?thesis
    unfolding c by simp
qed

text \<open>
  C6.  The orphan rule, for the build of one connectivity value whose nodes are those of
  the rows, in which the selection of every witness is available and no selection has
  null and non-null ancestors side by side.  A row is an orphan if its selection is
  empty or has null ancestors only.  The build raises \<open>ForestError\<close> exactly if the
  flag \<open>perfect_only\<close> is set and some witness other than \<open>A\<close> is an orphan; an
  orphan \<open>A\<close> never raises.  In every other case the loop over the rows ends without
  exception: no edge leads to an orphan, each orphan other than \<open>A\<close> is reported by
  a warning and no other witness is, every captioned witness is a node of the graph, and
  \<open>None\<close> is not.
\<close>

theorem orphan_rule:
  assumes "witness_nodes data = Inr ws"
    and "\<forall>r\<in>set data. \<exists>parents. lookup_parents pms (fst r) c = Inr parents"
    and "\<forall>r\<in>set data. \<not> mixed_row pms c r"
    and "map_of output_files c = Some f"
  shows "(draw_diagram po output_files pms c data ws = Inl ForestError \<longleftrightarrow>
            po \<and> (\<exists>r\<in>set data. fst r \<noteq> ''A'' \<and> orphan_row pms c r)) \<and>
         (\<not> (po \<and> (\<exists>r\<in>set data. fst r \<noteq> ''A'' \<and> orphan_row pms c r)) \<longrightarrow>
            (\<exists>d. draw_diagram po output_files pms c data ws = Inr d \<and>
               (\<forall>r\<in>set data. orphan_row pms c r \<longrightarrow>
                  (\<forall>n. (n, Some (fst r)) \<notin> set (edges (flow_graph d))) \<and>
                  (fst r \<noteq> ''A'' \<longrightarrow> fst r @ '' has no parents'' \<in> set (warned d))) \<and>
               (\<forall>r\<in>set data. \<not> orphan_row pms c r \<longrightarrow>
                  fst r @ '' has no parents'' \<notin> set (warned d)) \<and>
               (\<forall>k\<in>set (map fst (captions d)). has_node (flow_graph d) (Some k)) \<and>
               \<not> has_node (flow_graph d) None))"
proof -
  from draw_diagram_cases [OF assms(2,4), of po ws] show ?thesis
  proof (elim disjE exE conjE)
    assume "draw_diagram po output_files pms c data ws = Inl ForestError"
      and "po" and "\<exists>r\<in>set data. fst r \<noteq> ''A'' \<and> orphan_row pms c r"
    then show ?thesis by simp
  next
    fix d
    assume d: "draw_diagram po output_files pms c data ws = Inr d"
      and n: "\<not> (po \<and> (\<exists>r\<in>set data. fst r \<noteq> ''A'' \<and> orphan_row pms c r))"
      and e: "set (edges (flow_graph d)) = (\<Union>r\<in>set data. set (row_edges pms c r))"
      and v: "node_set (flow_graph d) =
              fst ` set ws \<union> (\<Union>r\<in>set data. fst ` set (row_edges pms c r))
                \<union> (\<Union>r\<in>set data. snd ` set (row_edges pms c r))"
      and w: "warned d = concat (map (row_warning pms c) data)"
    have ws: "fst ` set ws = (\<lambda>r. Some (fst r)) ` set data"
      using witness_nodes_fst [OF assms(1)] by (metis image_set)
    have a: "\<forall>n. (n, Some (fst r)) \<notin> set (edges (flow_graph d))"
      if r: "r \<in> set data" "orphan_row pms c r" for r
    proof (intro allI notI)
      fix n
      assume "(n, Some (fst r)) \<in> set (edges (flow_graph d))"
      then obtain r' where "r' \<in> set data" "(n, Some (fst r)) \<in> set (row_edges pms c r')"
        unfolding e by blast
      then have "fst r' = fst r" "\<not> orphan_row pms c r'"
        using row_edges_target by fastforce+
      with r(2) orphan_row_fst show False by blast
    qed
    have b: "fst r @ '' has no parents'' \<in> set (warned d)"
      if "r \<in> set data" "orphan_row pms c r" "fst r \<noteq> ''A''" for r
      unfolding w using that by (auto simp: row_warning_def)
    have b': "fst r @ '' has no parents'' \<notin> set (warned d)"
      if r: "r \<in> set data" "\<not> orphan_row pms c r" for r
    proof
      assume "fst r @ '' has no parents'' \<in> set (warned d)"
      then obtain r' where r': "r' \<in> set data"
        "fst r @ '' has no parents'' \<in> set (row_warning pms c r')"
        unfolding w by auto
      then have "orphan_row pms c r'" "fst r' @ '' has no parents'' = fst r @ '' has no parents''"
        by (auto simp: row_warning_def split: if_splits)
      then have "orphan_row pms c r'" "fst r' = fst r"
        by simp_all
      with r(2) orphan_row_fst show False by blast
    qed
    have k: "has_node (flow_graph d) (Some k)" if "k \<in> set (map fst (captions d))" for k
    proof -
      from that have "k \<in> fst ` set data"
        using draw_diagram_keys [OF d] by simp
      then have "Some k \<in> fst ` set ws"
        unfolding ws by auto
      then have "Some k \<in> node_set (flow_graph d)"
        unfolding v by simp
      then show ?thesis
        by (simp add: has_node_def node_set_def)
    qed
    have z: "\<not> has_node (flow_graph d) None"
    proof
      assume "has_node (flow_graph d) None"
      then have "None \<in> node_set (flow_graph d)"
        by (simp add: has_node_def node_set_def)
      then consider "None \<in> fst ` set ws"
        | r n where "r \<in> set data" "(None, n) \<in> set (row_edges pms c r)"
        | r n where "r \<in> set data" "(n, None) \<in> set (row_edges pms c r)"
        unfolding v by force
      then show False
      proof cases
        case 1
        then show ?thesis unfolding ws by auto
      next
        case 2
        from row_edges_null_source [OF 2(2)] 2(1) assms(3) show ?thesis by blast
      next
        case 3
        from row_edges_target [OF 3(2)] show ?thesis by simp
      qed
    qed
    have "\<forall>r\<in>set data. orphan_row pms c r \<longrightarrow>
                  (\<forall>n. (n, Some (fst r)) \<notin> set (edges (flow_graph d))) \<and>
                  (fst r \<noteq> ''A'' \<longrightarrow> fst r @ '' has no parents'' \<in> set (warned d))"
      using a b by blast
    moreover have "\<forall>r\<in>set data. \<not> orphan_row pms c r \<longrightarrow>
                  fst r @ '' has no parents'' \<notin> set (warned d)"
      using b' by blast
    moreover have "\<forall>k\<in>set (map fst (captions d)). has_node (flow_graph d) (Some k)"
      using k by blast
    ultimately have "\<exists>d. draw_diagram po output_files pms c data ws = Inr d \<and>
               (\<forall>r\<in>set data. orphan_row pms c r \<longrightarrow>
                  (\<forall>n. (n, Some (fst r)) \<notin> set (edges (flow_graph d))) \<and>
                  (fst r \<noteq> ''A'' \<longrightarrow> fst r @ '' has no parents'' \<in> set (warned d))) \<and>
               (\<forall>r\<in>set data. \<not> orphan_row pms c r \<longrightarrow>
                  fst r @ '' has no parents'' \<notin> set (warned d)) \<and>
               (\<forall>k\<in>set (map fst (captions d)). has_node (flow_graph d) (Some k)) \<and>
               \<not> has_node (flow_graph d) None"
      using d z by (intro exI [of _ d] conjI)
    moreover have "draw_diagram po output_files pms c data ws \<noteq> Inl ForestError"
      using d by simp
    ultimately show ?thesis
      using n by blast
  qed
qed


theorem orphan_rule_witness:
  "witness_nodes orphan_rows = Inr orphan_nodes \<and>
   collect_parent_maps example_ol orphan_coh ''1:1'' [3] orphan_rows [] = Inr orphan_maps \<and>
   draw_diagram True [(3, ''f.svg'')] orphan_maps 3 orphan_rows orphan_nodes = Inl ForestError \<and>
   draw_diagram False [(3, ''f.svg'')] orphan_maps 3 orphan_rows orphan_nodes =
     Inr \<lparr>flow_graph =
            \<lparr>nodes =
               [(Some ''A'', Some \<lparr>color = ''#b43f3f'', fillcolor = ''#FF8A8A'', style = ''filled''\<rparr>),
                (Some ''B'', Some \<lparr>color = ''#835da9'', fillcolor = ''#CEA8F4'', style = ''filled''\<rparr>),
                (Some ''D'', Some \<lparr>color = ''#b43b77'', fillcolor = ''#FF86C2'', style = ''filled''\<rparr>),
                (Some ''E'', Some \<lparr>color = ''#5e7aa0'', fillcolor = ''#A9C5EB'', style = ''filled''\<rparr>)],
             edges = [(Some ''A'', Some ''B'')]\<rparr>,
          captions = [(''A'', ''A (a)''), (''B'', ''B (b)''), (''D'', ''D (d)''), (''E'', ''E/0 (e)'')],
          output_file = ''f.svg'',
          warned = [''D has no parents'', ''E has no parents'']\<rparr> \<and>
   (\<exists>d. draw_diagram False [(3, ''f.svg'')] orphan_maps 3 orphan_rows orphan_nodes = Inr d \<and>
        ''D has no parents'' \<in> set (warned d) \<and> ''E has no parents'' \<in> set (warned d) \<and>
        ''B has no parents'' \<notin> set (warned d) \<and> \<not> has_node (flow_graph d) None) \<and>
   draw_diagram True [(3, ''f.svg'')] (take 2 orphan_maps) 3 (take 2 orphan_rows)
       (take 2 orphan_nodes) =
     Inr \<lparr>flow_graph =
            \<lparr>nodes =
               [(Some ''A'', Some \<lparr>color = ''#b43f3f'', fillcolor = ''#FF8A8A'', style = ''filled''\<rparr>),
                (Some ''B'', Some \<lparr>color = ''#835da9'', fillcolor = ''#CEA8F4'', style = ''filled''\<rparr>)],
             edges = [(Some ''A'', Some ''B'')]\<rparr>,
          captions = [(''A'', ''A (a)''), (''B'', ''B (b)'')],
          output_file = ''f.svg'', warned = []\<rparr> \<and>
   (\<exists>d. draw_diagram True [(3, ''f.svg'')] (take 2 orphan_maps) 3 (take 2 orphan_rows)
          (take 2 orphan_nodes) = Inr d \<and>
        \<not> has_node (flow_graph d) None)"
proof -
  let ?ofs = "[(3, ''f.svg'')] :: (int \<times> string) list"
  have h1: "witness_nodes orphan_rows = Inr orphan_nodes"
    by code_simp
  have hc: "collect_parent_maps example_ol orphan_coh ''1:1'' [3] orphan_rows [] = Inr orphan_maps"
    by code_simp
  have h2: "\<forall>r\<in>set orphan_rows. \<exists>parents. lookup_parents orphan_maps (fst r) 3 = Inr parents"
    by (simp add: orphan_rows_def orphan_maps_def lookup_parents_def)
  have h3: "\<forall>r\<in>set orphan_rows. \<not> mixed_row orphan_maps 3 r"
    by (simp add: orphan_rows_def orphan_maps_def mixed_row_def lookup_parents_def cand_id_def)
  have h4: "map_of ?ofs 3 = Some ''f.svg''"
    by simp
  have mB: "(''B'', ''b'', Some ''A'') \<in> set orphan_rows"
    and mD: "(''D'', ''d'', Some ''A'') \<in> set orphan_rows"
    and mE: "(''E'', ''e'', Some ''A'') \<in> set orphan_rows"
    by (simp_all add: orphan_rows_def)
  have oB: "\<not> orphan_row orphan_maps 3 (''B'', ''b'', Some ''A'')"
    and oD: "orphan_row orphan_maps 3 (''D'', ''d'', Some ''A'')"
    and oE: "orphan_row orphan_maps 3 (''E'', ''e'', Some ''A'')"
    by (simp_all add: orphan_row_def orphan_maps_def lookup_parents_def null_parents_def cand_id_def)
  have ex: "\<exists>r\<in>set orphan_rows. fst r \<noteq> ''A'' \<and> orphan_row orphan_maps 3 r"
    using oD by (intro bexI [OF _ mD]) simp
  from orphan_rule [OF h1 h2 h3 h4, of True] ex
  have a: "draw_diagram True ?ofs orphan_maps 3 orphan_rows orphan_nodes = Inl ForestError"
    by blast
  have b: "draw_diagram False ?ofs orphan_maps 3 orphan_rows orphan_nodes =
     Inr \<lparr>flow_graph =
            \<lparr>nodes =
               [(Some ''A'', Some \<lparr>color = ''#b43f3f'', fillcolor = ''#FF8A8A'', style = ''filled''\<rparr>),
                (Some ''B'', Some \<lparr>color = ''#835da9'', fillcolor = ''#CEA8F4'', style = ''filled''\<rparr>),
                (Some ''D'', Some \<lparr>color = ''#b43b77'', fillcolor = ''#FF86C2'', style = ''filled''\<rparr>),
                (Some ''E'', Some \<lparr>color = ''#5e7aa0'', fillcolor = ''#A9C5EB'', style = ''filled''\<rparr>)],
             edges = [(Some ''A'', Some ''B'')]\<rparr>,
          captions = [(''A'', ''A (a)''), (''B'', ''B (b)''), (''D'', ''D (d)''), (''E'', ''E/0 (e)'')],
          output_file = ''f.svg'',
          warned = [''D has no parents'', ''E has no parents'']\<rparr>"
    by code_simp
  from orphan_rule [OF h1 h2 h3 h4, of False] obtain d
    where d: "draw_diagram False ?ofs orphan_maps 3 orphan_rows orphan_nodes = Inr d"
      and w: "\<forall>r\<in>set orphan_rows. orphan_row orphan_maps 3 r \<longrightarrow>
                (\<forall>n. (n, Some (fst r)) \<notin> set (edges (flow_graph d))) \<and>
                (fst r \<noteq> ''A'' \<longrightarrow> fst r @ '' has no parents'' \<in> set (warned d))"
      and nw: "\<forall>r\<in>set orphan_rows. \<not> orphan_row orphan_maps 3 r \<longrightarrow>
                fst r @ '' has no parents'' \<notin> set (warned d)"
      and z: "\<not> has_node (flow_graph d) None"
    by (elim conjE impE exE) simp_all
  from bspec [OF w mD] oD have wD: "''D has no parents'' \<in> set (warned d)"
    by simp
  from bspec [OF w mE] oE have wE: "''E has no parents'' \<in> set (warned d)"
    by simp
  from bspec [OF nw mB] oB have wB: "''B has no parents'' \<notin> set (warned d)"
    by simp
  have c: "\<exists>d. draw_diagram False ?ofs orphan_maps 3 orphan_rows orphan_nodes = Inr d \<and>
        ''D has no parents'' \<in> set (warned d) \<and> ''E has no parents'' \<in> set (warned d) \<and>
        ''B has no parents'' \<notin> set (warned d) \<and> \<not> has_node (flow_graph d) None"
    using d wD wE wB z by (intro exI [of _ d] conjI)
  have g1: "witness_nodes (take 2 orphan_rows) = Inr (take 2 orphan_nodes)"
    by code_simp
  have g2: "\<forall>r\<in>set (take 2 orphan_rows).
              \<exists>parents. lookup_parents (take 2 orphan_maps) (fst r) 3 = Inr parents"
    by (simp add: orphan_rows_def orphan_maps_def lookup_parents_def)
  have g3: "\<forall>r\<in>set (take 2 orphan_rows). \<not> mixed_row (take 2 orphan_maps) 3 r"
    by (simp add: orphan_rows_def orphan_maps_def mixed_row_def lookup_parents_def cand_id_def)
  have g5: "\<not> (True \<and> (\<exists>r\<in>set (take 2 orphan_rows).
              fst r \<noteq> ''A'' \<and> orphan_row (take 2 orphan_maps) 3 r))"
    by (simp add: orphan_rows_def orphan_maps_def orphan_row_def lookup_parents_def
        null_parents_def cand_id_def)
  from orphan_rule [OF g1 g2 g3 h4, of True] g5 obtain d'
    where d': "draw_diagram True ?ofs (take 2 orphan_maps) 3 (take 2 orphan_rows)
                 (take 2 orphan_nodes) = Inr d'"
      and z': "\<not> has_node (flow_graph d') None"
    by (elim conjE impE exE) simp_all
  have e: "\<exists>d. draw_diagram True ?ofs (take 2 orphan_maps) 3 (take 2 orphan_rows)
          (take 2 orphan_nodes) = Inr d \<and> \<not> has_node (flow_graph d) None"
    using d' z' by (intro exI [of _ d'] conjI)
  have f: "draw_diagram True ?ofs (take 2 orphan_maps) 3 (take 2 orphan_rows)
       (take 2 orphan_nodes) =
     Inr \<lparr>flow_graph =
            \<lparr>nodes =
               [(Some ''A'', Some \<lparr>color = ''#b43f3f'', fillcolor = ''#FF8A8A'', style = ''filled''\<rparr>),
                (Some ''B'', Some \<lparr>color = ''#835da9'', fillcolor = ''#CEA8F4'', style = ''filled''\<rparr>)],
             edges = [(Some ''A'', Some ''B'')]\<rparr>,
          captions = [(''A'', ''A (a)''), (''B'', ''B (b)'')],
          output_file = ''f.svg'', warned = []\<rparr>"
    by code_simp
  show ?thesis
    using h1 hc a b c f e by (intro conjI)
qed

text \<open>
  C8 as the specification states it fails: in the second scenario the selection of C
  is the synthetic candidate, and the graph has the node \<open>OL_PARENT\<close>, which is no
  witness of the unit, and the edge from it to C.
\<close>

theorem synthetic_parent_node:
  "map flow_graph (fst (TextualFlow example_ol overlap_coh overlap_db [] ''1:1'' [3] False [])) =
     [\<lparr>nodes =
         [(Some ''A'', Some \<lparr>color = ''#b43f3f'', fillcolor = ''#FF8A8A'', style = ''filled''\<rparr>),
          (Some ''B'', Some \<lparr>color = ''#835da9'', fillcolor = ''#CEA8F4'', style = ''filled''\<rparr>),
          (Some ''C'', Some \<lparr>color = ''#b43f3f'', fillcolor = ''#FF8A8A'', style = ''filled''\<rparr>),
          (Some ''OL_PARENT'', None)],
       edges = [(Some ''A'', Some ''B''), (Some ''OL_PARENT'', Some ''C'')]\<rparr>] \<and>
   map fst overlap_rows = [''A'', ''B'', ''C''] \<and>
   get_parents example_ol overlap_coh ''C'' ''a'' (Some ''OL_PARENT'') ''1:1'' [3] =
     Inr (Some [(3, [(Some ''OL_PARENT'', - 1, 1)])])"
  by code_simp

text \<open>
  C8, amended.  In a diagram that was built, before the relabelling: a witness id or
  ancestor id is a node exactly if it is a witness of the unit or the source of an edge;
  there is an edge from an id to a witness exactly if the id is the ancestor of a
  candidate in the selection of that witness, be it a witness of the unit or not (the
  synthetic \<open>OL_PARENT\<close> included); and no edge leads to a witness whose selection is
  empty or has null ancestors only.
\<close>

theorem flow_graph_nodes_and_edges:
  assumes "witness_nodes data = Inr ws"
    and "draw_diagram po output_files pms c data ws = Inr d"
  shows "(\<forall>a. has_node (flow_graph d) (Some a) \<longleftrightarrow>
            a \<in> fst ` set data \<or> (\<exists>w. (Some a, Some w) \<in> set (edges (flow_graph d)))) \<and>
         (\<forall>a w. (Some a, Some w) \<in> set (edges (flow_graph d)) \<longleftrightarrow>
            (\<exists>r\<in>set data. fst r = w \<and>
               (\<exists>parents x. lookup_parents pms w c = Inr parents \<and> x \<in> set parents \<and>
                  cand_id x = Some a))) \<and>
         (\<forall>r\<in>set data. orphan_row pms c r \<longrightarrow>
            (\<forall>n. (n, Some (fst r)) \<notin> set (edges (flow_graph d))))"
proof -
  from draw_diagram_available [OF assms(2)] obtain f
    where av: "\<forall>r\<in>set data. \<exists>parents. lookup_parents pms (fst r) c = Inr parents"
      and f: "map_of output_files c = Some f"
    by blast
  from draw_diagram_cases [OF av f, of po ws] assms(2)
  have e: "set (edges (flow_graph d)) = (\<Union>r\<in>set data. set (row_edges pms c r))"
    and v: "node_set (flow_graph d) =
              fst ` set ws \<union> (\<Union>r\<in>set data. fst ` set (row_edges pms c r))
                \<union> (\<Union>r\<in>set data. snd ` set (row_edges pms c r))"
    by auto
  have ws: "fst ` set ws = (\<lambda>r. Some (fst r)) ` set data"
    using witness_nodes_fst [OF assms(1)] by (metis image_set)
  have tgt: "v = Some (fst r)" if "(n, v) \<in> set (row_edges pms c r)" for n v r
    using row_edges_target [OF that] by simp
  have two: "(Some a, Some w) \<in> set (edges (flow_graph d)) \<longleftrightarrow>
            (\<exists>r\<in>set data. fst r = w \<and>
               (\<exists>parents x. lookup_parents pms w c = Inr parents \<and> x \<in> set parents \<and>
                  cand_id x = Some a))" for a w
  proof -
    have "(Some a, Some w) \<in> set (edges (flow_graph d)) \<longleftrightarrow>
          (\<exists>r\<in>set data. (Some a, Some w) \<in> set (row_edges pms c r))"
      unfolding e by simp
    also have "\<dots> \<longleftrightarrow> (\<exists>r\<in>set data. fst r = w \<and>
               (\<exists>parents x. lookup_parents pms (fst r) c = Inr parents \<and> x \<in> set parents \<and>
                  cand_id x = Some a))"
      unfolding row_edges_source ..
    also have "\<dots> \<longleftrightarrow> (\<exists>r\<in>set data. fst r = w \<and>
               (\<exists>parents x. lookup_parents pms w c = Inr parents \<and> x \<in> set parents \<and>
                  cand_id x = Some a))"
      by (intro bex_cong refl conj_cong) simp
    finally show ?thesis .
  qed
  have one: "has_node (flow_graph d) (Some a) \<longleftrightarrow>
            a \<in> fst ` set data \<or> (\<exists>w. (Some a, Some w) \<in> set (edges (flow_graph d)))" for a
  proof
    assume "has_node (flow_graph d) (Some a)"
    then have "Some a \<in> node_set (flow_graph d)"
      by (simp add: has_node_def node_set_def)
    then consider "Some a \<in> fst ` set ws"
      | r n where "r \<in> set data" "(Some a, n) \<in> set (row_edges pms c r)"
      | r n where "r \<in> set data" "(n, Some a) \<in> set (row_edges pms c r)"
      unfolding v by force
    then show "a \<in> fst ` set data \<or> (\<exists>w. (Some a, Some w) \<in> set (edges (flow_graph d)))"
    proof cases
      case 1
      then show ?thesis unfolding ws by auto
    next
      case 2
      with tgt [OF 2(2)] show ?thesis unfolding e by auto
    next
      case 3
      with tgt [OF 3(2)] show ?thesis by auto
    qed
  next
    assume "a \<in> fst ` set data \<or> (\<exists>w. (Some a, Some w) \<in> set (edges (flow_graph d)))"
    then have "Some a \<in> node_set (flow_graph d)"
    proof
      assume "a \<in> fst ` set data"
      then show ?thesis unfolding v ws by auto
    next
      assume "\<exists>w. (Some a, Some w) \<in> set (edges (flow_graph d))"
      then obtain w r where "r \<in> set data" "(Some a, Some w) \<in> set (row_edges pms c r)"
        unfolding e by blast
      then have "Some a \<in> (\<Union>r\<in>set data. fst ` set (row_edges pms c r))"
        by force
      then show ?thesis unfolding v by simp
    qed
    then show "has_node (flow_graph d) (Some a)"
      by (simp add: has_node_def node_set_def)
  qed
  have three: "\<forall>n. (n, Some (fst r)) \<notin> set (edges (flow_graph d))"
    if r: "r \<in> set data" "orphan_row pms c r" for r
  proof (intro allI notI)
    fix n
    assume "(n, Some (fst r)) \<in> set (edges (flow_graph d))"
    then obtain r' where "r' \<in> set data" "(n, Some (fst r)) \<in> set (row_edges pms c r')"
      unfolding e by blast
    then have "fst r' = fst r" "\<not> orphan_row pms c r'"
      using row_edges_target by fastforce+
    with r(2) orphan_row_fst show False by blast
  qed
  show ?thesis
    using one two three by blast
qed

theorem flow_graph_nodes_and_edges_witness:
  "witness_nodes [(''C'', ''a'', Some ''OL_PARENT'')] =
     Inr [(Some ''C'', \<lparr>color = ''#b43f3f'', fillcolor = ''#FF8A8A'', style = ''filled''\<rparr>)] \<and>
   draw_diagram False [(3, ''f.svg'')] [(''C'', Some [(3, [(Some ''OL_PARENT'', - 1, 1)])])] 3
     [(''C'', ''a'', Some ''OL_PARENT'')]
     [(Some ''C'', \<lparr>color = ''#b43f3f'', fillcolor = ''#FF8A8A'', style = ''filled''\<rparr>)] =
     Inr \<lparr>flow_graph =
            \<lparr>nodes =
               [(Some ''C'', Some \<lparr>color = ''#b43f3f'', fillcolor = ''#FF8A8A'', style = ''filled''\<rparr>),
                (Some ''OL_PARENT'', None)],
             edges = [(Some ''OL_PARENT'', Some ''C'')]\<rparr>,
          captions = [(''C'', ''C/-1 (a)'')], output_file = ''f.svg'', warned = []\<rparr> \<and>
   has_node
     \<lparr>nodes =
        [(Some ''C'', Some \<lparr>color = ''#b43f3f'', fillcolor = ''#FF8A8A'', style = ''filled''\<rparr>),
         (Some ''OL_PARENT'', None)],
      edges = [(Some ''OL_PARENT'', Some ''C'')]\<rparr> (Some ''OL_PARENT'')"
proof -
  let ?data = "[(''C'', ''a'', Some ''OL_PARENT'')] :: row list"
  let ?ws = "[(Some ''C'', \<lparr>color = ''#b43f3f'', fillcolor = ''#FF8A8A'', style = ''filled''\<rparr>)]
             :: (node \<times> node_attrs) list"
  let ?pms = "[(''C'', Some [(3, [(Some ''OL_PARENT'', - 1, 1)])])] :: parent_maps"
  let ?G = "\<lparr>nodes =
        [(Some ''C'', Some \<lparr>color = ''#b43f3f'', fillcolor = ''#FF8A8A'', style = ''filled''\<rparr>),
         (Some ''OL_PARENT'', None)],
      edges = [(Some ''OL_PARENT'', Some ''C'')]\<rparr>"
  let ?d = "\<lparr>flow_graph = ?G, captions = [(''C'', ''C/-1 (a)'')], output_file = ''f.svg'',
             warned = []\<rparr>"
  have h1: "witness_nodes ?data = Inr ?ws"
    by code_simp
  have h2: "draw_diagram False [(3, ''f.svg'')] ?pms 3 ?data ?ws = Inr ?d"
    by code_simp
  from flow_graph_nodes_and_edges [OF h1 h2]
  have "has_node (flow_graph ?d) (Some ''OL_PARENT'') \<longleftrightarrow>
          ''OL_PARENT'' \<in> fst ` set ?data \<or>
          (\<exists>w. (Some ''OL_PARENT'', Some w) \<in> set (edges (flow_graph ?d)))"
    by blast
  then have "has_node ?G (Some ''OL_PARENT'')"
    by simp
  with h1 h2 show ?thesis
    by (intro conjI)
qed

lemma draw_row_caption:
  assumes "draw_row po pms c r st = Inr st'"
  shows "\<exists>parents. lookup_parents pms (fst r) c = Inr parents \<and>
           map_of (rank_mapping st') =
             (map_of (rank_mapping st))(fst r \<mapsto> caption (fst r) (fst (snd r)) parents)"
proof (cases "lookup_parents pms (fst r) c")
  case (Inl e)
  with assms draw_row_lookup_fails [OF Inl, of po st] show ?thesis by simp
next
  case (Inr parents)
  from draw_row_cases [OF Inr, of po st] assms
  have "rank_mapping st' =
          AList.update (fst r) (caption (fst r) (fst (snd r)) parents) (rank_mapping st)"
    by auto
  then show ?thesis
    using Inr by (simp add: AList.update_conv')
qed

lemma draw_rows_captions_other:
  assumes "draw_rows po pms c rows st = Inr st'" and "w \<notin> fst ` set rows"
  shows "map_of (rank_mapping st') w = map_of (rank_mapping st) w"
  using assms
proof (induction rows arbitrary: st)
  case Nil
  then show ?case by simp
next
  case (Cons r rows)
  from Cons.prems(1) obtain st1 where s1: "draw_row po pms c r st = Inr st1"
    and s2: "draw_rows po pms c rows st1 = Inr st'"
    by (auto split: sum.splits)
  from Cons.prems(2) have w: "w \<noteq> fst r" "w \<notin> fst ` set rows"
    by auto
  from draw_row_caption [OF s1] w(1) have "map_of (rank_mapping st1) w = map_of (rank_mapping st) w"
    by auto
  with Cons.IH [OF s2 w(2)] show ?case by simp
qed

lemma draw_rows_captions:
  assumes "draw_rows po pms c rows st = Inr st'" and "distinct (map fst rows)"
    and "(w, rd, p) \<in> set rows"
  shows "\<exists>parents. lookup_parents pms w c = Inr parents \<and>
           map_of (rank_mapping st') w = Some (caption w rd parents)"
  using assms
proof (induction rows arbitrary: st)
  case Nil
  then show ?case by simp
next
  case (Cons r rows)
  from Cons.prems(1) obtain st1 where s1: "draw_row po pms c r st = Inr st1"
    and s2: "draw_rows po pms c rows st1 = Inr st'"
    by (auto split: sum.splits)
  from Cons.prems(2) have d: "fst r \<notin> fst ` set rows" "distinct (map fst rows)"
    by auto
  show ?case
  proof (cases "r = (w, rd, p)")
    case True
    from draw_row_caption [OF s1] obtain parents
      where "lookup_parents pms w c = Inr parents"
        and "map_of (rank_mapping st1) w = Some (caption w rd parents)"
      unfolding True by auto
    moreover have "map_of (rank_mapping st') w = map_of (rank_mapping st1) w"
      using draw_rows_captions_other [OF s2] d(1) unfolding True by simp
    ultimately show ?thesis by simp
  next
    case False
    with Cons.prems(3) have "(w, rd, p) \<in> set rows" by simp
    from Cons.IH [OF s2 d(2) this] show ?thesis .
  qed
qed

lemma caption_cases:
  "caption w1 w1_reading parents =
     (case parents of
        [] \<Rightarrow> w1 @ '' ('' @ w1_reading @ '')''
      | [x] \<Rightarrow>
          if cand_rank x = 1 then w1 @ '' ('' @ w1_reading @ '')''
          else w1 @ ''/'' @ str_int (cand_rank x) @ '' ('' @ w1_reading @ '')''
      | _ \<Rightarrow>
          w1 @ ''/['' @
          join '', '' (map (\<lambda>x. format_id (cand_id x) @ ''.'' @ str_int (cand_rank x)) parents) @
          ''] ('' @ w1_reading @ '')'')"
  by (simp add: caption_def split: list.splits)

text \<open>
  C3 as the specification states it fails: in the first scenario the single candidate of
  C has rank 2 and generation 1; the caption by generation would be \<open>C (a)\<close>, the
  caption in the diagram is \<open>C/2 (a)\<close>.
\<close>

theorem caption_shows_rank:
  "get_parents example_ol example_coh ''C'' ''a'' (Some ''A'') ''1:1'' [3] =
     Inr (Some [(3, [(Some ''A'', 2, 1)])]) \<and>
   map captions (fst (TextualFlow example_ol example_coh example_db [] ''1:1'' [3] False [])) =
     [[(''A'', ''A (a)''), (''B'', ''B (b)''), (''C'', ''C/2 (a)'')]] \<and>
   caption_by_generation ''C'' ''a'' [(Some ''A'', 2, 1)] = ''C (a)''"
  by code_simp

text \<open>
  C3, amended.  In a diagram that was built from rows with distinct witnesses, the
  caption of a witness is determined by the number of candidates of its selection and
  their rank: \<open>id (reading)\<close> for no candidate or one candidate of rank 1,
  \<open>id/rank (reading)\<close> for one candidate of another rank, and
  \<open>id/[p1.rank1, p2.rank2, ...] (reading)\<close> for several candidates, with the ancestor
  id and the rank of each.
\<close>

theorem caption_by_rank:
  assumes "draw_diagram po output_files pms c data ws = Inr d"
    and "distinct (map fst data)" and "(w1, w1_reading, w1_parent) \<in> set data"
  shows "\<exists>parents. lookup_parents pms w1 c = Inr parents \<and>
           map_of (captions d) w1 =
             Some (case parents of
                     [] \<Rightarrow> w1 @ '' ('' @ w1_reading @ '')''
                   | [x] \<Rightarrow>
                       if cand_rank x = 1 then w1 @ '' ('' @ w1_reading @ '')''
                       else w1 @ ''/'' @ str_int (cand_rank x) @ '' ('' @ w1_reading @ '')''
                   | _ \<Rightarrow>
                       w1 @ ''/['' @
                       join '', ''
                         (map (\<lambda>x. format_id (cand_id x) @ ''.'' @ str_int (cand_rank x)) parents) @
                       ''] ('' @ w1_reading @ '')'')"
proof -
  let ?st0 = "\<lparr>graph = add_nodes_from ws empty_graph, rank_mapping = [], warnings = []\<rparr>"
  from assms(1) obtain st' where s: "draw_rows po pms c data ?st0 = Inr st'"
    and c: "captions d = rank_mapping st'"
    by (auto simp: draw_diagram_def split: sum.splits option.splits)
  from draw_rows_captions [OF s assms(2,3)] show ?thesis
    unfolding c caption_cases .
qed

theorem caption_by_rank_witness:
  "witness_nodes example_rows =
     Inr [(Some ''A'', \<lparr>color = ''#b43f3f'', fillcolor = ''#FF8A8A'', style = ''filled''\<rparr>),
          (Some ''B'', \<lparr>color = ''#835da9'', fillcolor = ''#CEA8F4'', style = ''filled''\<rparr>),
          (Some ''C'', \<lparr>color = ''#b43f3f'', fillcolor = ''#FF8A8A'', style = ''filled''\<rparr>)] \<and>
   draw_diagram False [(3, ''f.svg'')]
     [(''A'', Some [(3, [])]), (''B'', Some [(3, [(Some ''A'', 1, 1)])]),
      (''C'', Some [(3, [(Some ''A'', 2, 1)])])] 3 example_rows
     [(Some ''A'', \<lparr>color = ''#b43f3f'', fillcolor = ''#FF8A8A'', style = ''filled''\<rparr>),
      (Some ''B'', \<lparr>color = ''#835da9'', fillcolor = ''#CEA8F4'', style = ''filled''\<rparr>),
      (Some ''C'', \<lparr>color = ''#b43f3f'', fillcolor = ''#FF8A8A'', style = ''filled''\<rparr>)] =
     Inr \<lparr>flow_graph =
            \<lparr>nodes =
               [(Some ''A'', Some \<lparr>color = ''#b43f3f'', fillcolor = ''#FF8A8A'', style = ''filled''\<rparr>),
                (Some ''B'', Some \<lparr>color = ''#835da9'', fillcolor = ''#CEA8F4'', style = ''filled''\<rparr>),
                (Some ''C'', Some \<lparr>color = ''#b43f3f'', fillcolor = ''#FF8A8A'', style = ''filled''\<rparr>)],
             edges = [(Some ''A'', Some ''B''), (Some ''A'', Some ''C'')]\<rparr>,
          captions = [(''A'', ''A (a)''), (''B'', ''B (b)''), (''C'', ''C/2 (a)'')],
          output_file = ''f.svg'', warned = []\<rparr> \<and>
   distinct (map fst example_rows) \<and>
   map_of [(''A'', ''A (a)''), (''B'', ''B (b)''), (''C'', ''C/2 (a)'')] ''C'' =
     Some (''C'' @ ''/'' @ str_int 2 @ '' ('' @ ''a'' @ '')'')"
proof -
  let ?pms = "[(''A'', Some [(3, [])]), (''B'', Some [(3, [(Some ''A'', 1, 1)])]),
               (''C'', Some [(3, [(Some ''A'', 2, 1)])])] :: parent_maps"
  let ?ws = "[(Some ''A'', \<lparr>color = ''#b43f3f'', fillcolor = ''#FF8A8A'', style = ''filled''\<rparr>),
      (Some ''B'', \<lparr>color = ''#835da9'', fillcolor = ''#CEA8F4'', style = ''filled''\<rparr>),
      (Some ''C'', \<lparr>color = ''#b43f3f'', fillcolor = ''#FF8A8A'', style = ''filled''\<rparr>)]
      :: (node \<times> node_attrs) list"
  let ?d = "\<lparr>flow_graph =
            \<lparr>nodes =
               [(Some ''A'', Some \<lparr>color = ''#b43f3f'', fillcolor = ''#FF8A8A'', style = ''filled''\<rparr>),
                (Some ''B'', Some \<lparr>color = ''#835da9'', fillcolor = ''#CEA8F4'', style = ''filled''\<rparr>),
                (Some ''C'', Some \<lparr>color = ''#b43f3f'', fillcolor = ''#FF8A8A'', style = ''filled''\<rparr>)],
             edges = [(Some ''A'', Some ''B''), (Some ''A'', Some ''C'')]\<rparr>,
          captions = [(''A'', ''A (a)''), (''B'', ''B (b)''), (''C'', ''C/2 (a)'')],
          output_file = ''f.svg'', warned = []\<rparr>"
  have h0: "witness_nodes example_rows = Inr ?ws"
    by code_simp
  have h1: "draw_diagram False [(3, ''f.svg'')] ?pms 3 example_rows ?ws = Inr ?d"
    by code_simp
  have h2: "distinct (map fst example_rows)"
    by (simp add: example_rows_def)
  have h3: "(''C'', ''a'', Some ''A'') \<in> set example_rows"
    by (simp add: example_rows_def)
  have lp: "lookup_parents ?pms ''C'' 3 = Inr [(Some ''A'', 2, 1)]"
    by (simp add: lookup_parents_def)
  from caption_by_rank [OF h1 h2 h3]
  have "map_of (captions ?d) ''C'' =
          Some (''C'' @ ''/'' @ str_int 2 @ '' ('' @ ''a'' @ '')'')"
    unfolding lp by (simp add: cand_rank_def)
  then have "map_of [(''A'', ''A (a)''), (''B'', ''B (b)''), (''C'', ''C/2 (a)'')] ''C'' =
     Some (''C'' @ ''/'' @ str_int 2 @ '' ('' @ ''a'' @ '')'')"
    by simp
  with h0 h1 h2 show ?thesis
    by (intro conjI)
qed

subsection \<open>The build of a variant unit and the entry point\<close>

lemma check_outputs_snd:
  "snd (check_outputs fs vu sfx conns st) =
     snd st @ filter (\<lambda>c. output_name vu c sfx \<notin> set fs) conns"
  by (induction conns arbitrary: st) simp_all

lemma check_outputs_fst:
  "map_of (fst (check_outputs fs vu sfx conns st)) c =
     (if c \<in> set conns \<and> output_name vu c sfx \<notin> set fs then Some (output_name vu c sfx)
      else map_of (fst st) c)"
  by (induction conns arbitrary: st) (auto simp: AList.update_conv')

lemma draw_diagram_output_file:
  assumes "draw_diagram po ofs pms c data ws = Inr d"
  shows "map_of ofs c = Some (output_file d)"
  using assms by (auto simp: draw_diagram_def split: sum.splits option.splits)

lemma draw_diagrams_files:
  assumes "draw_diagrams po ofs pms data ws conns drawn = (ds, err)"
    and "\<forall>c\<in>set conns. map_of ofs c = Some (name c)"
  shows "\<exists>k\<le>length conns. map output_file ds = map output_file drawn @ map name (take k conns) \<and>
           (err = None \<longrightarrow> k = length conns)"
  using assms
proof (induction conns arbitrary: drawn)
  case Nil
  then show ?case by auto
next
  case (Cons c conns)
  show ?case
  proof (cases "draw_diagram po ofs pms c data ws")
    case (Inl e)
    with Cons.prems(1) have "ds = drawn" "err = Some e"
      by simp_all
    then show ?thesis
      by (intro exI [of _ 0]) simp
  next
    case (Inr d)
    with Cons.prems(1) have r: "draw_diagrams po ofs pms data ws conns (drawn @ [d]) = (ds, err)"
      by simp
    have f: "output_file d = name c"
      using draw_diagram_output_file [OF Inr] Cons.prems(2) by simp
    from Cons.prems(2) have "\<forall>c\<in>set conns. map_of ofs c = Some (name c)"
      by simp
    from Cons.IH [OF r this] obtain k where k: "k \<le> length conns"
      "map output_file ds = map output_file (drawn @ [d]) @ map name (take k conns)"
      "err = None \<longrightarrow> k = length conns"
      by blast
    then show ?thesis
      using f by (intro exI [of _ "Suc k"]) simp
  qed
qed

lemma threshold_loop_cong:
  assumes "\<forall>c\<in>set conns. combs c = combs' c"
  shows "threshold_loop ol p combs conns tr pm = threshold_loop ol p combs' conns tr pm"
  using assms
  by (induction conns arbitrary: tr pm) (simp_all split: option.splits sum.splits)

lemma collect_parent_maps_cong:
  assumes "\<forall>w r p. \<forall>c\<in>set conns. coh w vu r p c = coh' w vu r p c"
  shows "collect_parent_maps ol coh vu conns rows pms = collect_parent_maps ol coh' vu conns rows pms"
proof (induction rows arbitrary: pms)
  case Nil
  then show ?case by simp
next
  case (Cons r rows)
  obtain w rd p where r: "r = (w, rd, p)"
    by (cases r) auto
  have "get_parents ol coh w rd p vu conns = get_parents ol coh' w rd p vu conns"
    unfolding get_parents_def using assms by (intro threshold_loop_cong) simp
  then show ?case
    unfolding r by (simp add: Cons.IH cong: sum.case_cong)
qed

text \<open>
  C9.  The constructor of \<open>TextualFlow\<close> for a variant unit, a suffix and the files
  \<open>fs\<close> that exist when it starts, with the diagrams \<open>ds\<close> that it wrote and the
  exception \<open>err\<close> that ended it, if any.  For a connectivity value whose file
  \<open>textual_flow_<unit with '/' replaced by '_'>_c<value><suffix>.svg\<close> exists, no file is
  written under that name, and no parent selection is asked for: the outcome is the same
  for every provider that agrees with the given one on the values whose file is absent.
  If the build ends without exception, the files written are those of the values whose
  file is absent, in the order of the list and under exactly that name.
\<close>

theorem cached_thresholds:
  assumes "TextualFlow ol coh db fs vu connectivity po suffix = (ds, err)"
  shows "(\<forall>c\<in>set connectivity. output_name vu c suffix \<in> set fs \<longrightarrow>
            output_name vu c suffix \<notin> set (map output_file ds)) \<and>
         (\<forall>coh'. (\<forall>w r p c. output_name vu c suffix \<notin> set fs \<longrightarrow> coh' w vu r p c = coh w vu r p c) \<longrightarrow>
            TextualFlow ol coh' db fs vu connectivity po suffix = (ds, err)) \<and>
         (err = None \<longrightarrow>
            map output_file ds =
              map (\<lambda>c. output_name vu c suffix)
                (filter (\<lambda>c. output_name vu c suffix \<notin> set fs) connectivity))"
proof -
  let ?name = "\<lambda>c. output_name vu c suffix"
  let ?pending = "filter (\<lambda>c. ?name c \<notin> set fs) connectivity"
  obtain ofs conns where co: "check_outputs fs vu suffix connectivity ([], []) = (ofs, conns)"
    by (cases "check_outputs fs vu suffix connectivity ([], [])") auto
  have conns: "conns = ?pending"
    using check_outputs_snd [of fs vu suffix connectivity "([], [])"] co by simp
  have ofs: "map_of ofs c = (if c \<in> set connectivity \<and> ?name c \<notin> set fs then Some (?name c) else None)"
    for c
    using check_outputs_fst [of fs vu suffix connectivity "([], [])" c] co by simp
  have names: "\<forall>c\<in>set conns. map_of ofs c = Some (?name c)"
    unfolding conns by (simp add: ofs)
  have files: "\<exists>k\<le>length conns. map output_file ds = map ?name (take k conns) \<and>
                 (err = None \<longrightarrow> k = length conns)"
  proof (cases "ofs = []")
    case True
    then have "conns = []"
      using names by (cases conns) auto
    moreover from True co assms have "ds = []" "err = None"
      by (simp_all add: TextualFlow_def)
    ultimately show ?thesis by simp
  next
    case False
    show ?thesis
    proof (cases "witness_nodes (db vu)")
      case (Inl e)
      with False co assms have "ds = []" "err = Some e"
        by (simp_all add: TextualFlow_def)
      then show ?thesis by (intro exI [of _ 0]) simp
    next
      case ws: (Inr ws)
      show ?thesis
      proof (cases "collect_parent_maps ol coh vu conns (db vu) []")
        case (Inl e)
        with False co assms ws have "ds = []" "err = Some e"
          by (simp_all add: TextualFlow_def)
        then show ?thesis by (intro exI [of _ 0]) simp
      next
        case (Inr pms)
        with False co assms ws
        have "draw_diagrams po ofs pms (db vu) ws conns [] = (ds, err)"
          by (simp add: TextualFlow_def)
        from draw_diagrams_files [OF this names] show ?thesis by simp
      qed
    qed
  qed
  then obtain k where k: "map output_file ds = map ?name (take k conns)"
    "err = None \<longrightarrow> k = length conns"
    by blast
  have one: "\<forall>c\<in>set connectivity. ?name c \<in> set fs \<longrightarrow> ?name c \<notin> set (map output_file ds)"
  proof (intro ballI impI notI)
    fix c
    assume "?name c \<in> set fs" "?name c \<in> set (map output_file ds)"
    then have "?name c \<in> ?name ` set (take k ?pending)"
      unfolding k(1) conns by simp
    then obtain c' where "c' \<in> set (take k ?pending)" "?name c' = ?name c"
      by auto
    then have "?name c' \<notin> set fs"
      using set_take_subset [of k ?pending] by auto
    with \<open>?name c' = ?name c\<close> \<open>?name c \<in> set fs\<close> show False by simp
  qed
  have two: "TextualFlow ol coh' db fs vu connectivity po suffix = (ds, err)"
    if "\<forall>w r p c. ?name c \<notin> set fs \<longrightarrow> coh' w vu r p c = coh w vu r p c" for coh'
  proof -
    have "\<forall>w r p. \<forall>c\<in>set conns. coh' w vu r p c = coh w vu r p c"
      unfolding conns using that by simp
    then have eq: "collect_parent_maps ol coh' vu conns (db vu) [] =
               collect_parent_maps ol coh vu conns (db vu) []"
      by (rule collect_parent_maps_cong)
    have "TextualFlow ol coh' db fs vu connectivity po suffix =
               TextualFlow ol coh db fs vu connectivity po suffix"
      unfolding TextualFlow_def co prod.case eq ..
    with assms show ?thesis by simp
  qed
  have three: "err = None \<longrightarrow> map output_file ds = map ?name ?pending"
    using k conns by simp
  show ?thesis
    using one two three by blast
qed

theorem cached_thresholds_witness:
  "output_name ''1/1'' 3 ''_x'' = ''textual_flow_1_1_c3_x.svg'' \<and>
   snd (TextualFlow example_ol example_coh example_db [''textual_flow_1_1_c3_x.svg''] ''1/1''
          [3, 4] False ''_x'') = None \<and>
   map output_file
     (fst (TextualFlow example_ol example_coh example_db [''textual_flow_1_1_c3_x.svg''] ''1/1''
             [3, 4] False ''_x'')) = [''textual_flow_1_1_c4_x.svg'']"
proof -
  let ?fs = "[''textual_flow_1_1_c3_x.svg'']"
  let ?run = "TextualFlow example_ol example_coh example_db ?fs ''1/1'' [3, 4] False ''_x''"
  have h: "?run = (fst ?run, snd ?run)"
    by simp
  have n: "output_name ''1/1'' 3 ''_x'' = ''textual_flow_1_1_c3_x.svg''"
    by code_simp
  have e: "snd ?run = None"
    by code_simp
  have p: "map (\<lambda>c. output_name ''1/1'' c ''_x'')
             (filter (\<lambda>c. output_name ''1/1'' c ''_x'' \<notin> set ?fs) [3, 4]) =
           [''textual_flow_1_1_c4_x.svg'']"
    by code_simp
  from cached_thresholds [OF h] e
  have "map output_file (fst ?run) =
          map (\<lambda>c. output_name ''1/1'' c ''_x'')
            (filter (\<lambda>c. output_name ''1/1'' c ''_x'' \<notin> set ?fs) [3, 4])"
    by blast
  then have "map output_file (fst ?run) = [''textual_flow_1_1_c4_x.svg'']"
    unfolding p .
  with n e show ?thesis
    by (intro conjI)
qed

text \<open>
  C5.  The entry point receives the flag \<open>perfect_only\<close> and the suffix, and builds
  every variant unit with \<open>perfect_only=False\<close> and \<open>suffix=''\<close>.  Called with the
  flag set and the suffix \<open>_strict\<close>, where B and C have no parents, it writes
  \<open>textual_flow_1_1_c3.svg\<close> and raises nothing; the constructor, given the flag and the
  suffix, raises \<open>ForestError\<close>, and without the flag writes
  \<open>textual_flow_1_1_c3_strict.svg\<close>.
\<close>

theorem entry_point_drops_flag_and_suffix:
  "map output_file
     (fst (textual_flow example_ol silent_coh example_db [] [''1/1''] [3] True ''_strict'')) =
     [''textual_flow_1_1_c3.svg''] \<and>
   snd (textual_flow example_ol silent_coh example_db [] [''1/1''] [3] True ''_strict'') = None \<and>
   TextualFlow example_ol silent_coh example_db [] ''1/1'' [3] True ''_strict'' =
     ([], Some ForestError) \<and>
   map output_file
     (fst (TextualFlow example_ol silent_coh example_db [] ''1/1'' [3] False ''_strict'')) =
     [''textual_flow_1_1_c3_strict.svg'']"
  by code_simp

text \<open>
  C2.  The trackers are not reset between the connectivity values.  The provider finds
  the parent A of rank 5 for B within connectivity 10 and nothing within connectivity 1.
  Asked for the values 10 and 1 in this order, \<open>get_parents\<close> records the parent A for
  the value 1 as well; asked for the value 1 alone, it records no parent.
\<close>

theorem trackers_carried_over:
  "loose_coh ''B'' ''1:1'' ''b'' (Some ''A'') 1 = Some [] \<and>
   get_parents example_ol loose_coh ''B'' ''b'' (Some ''A'') ''1:1'' [10, 1] =
     Inr (Some [(10, [(Some ''A'', 5, 1)]), (1, [(Some ''A'', 5, 1)])]) \<and>
   get_parents example_ol loose_coh ''B'' ''b'' (Some ''A'') ''1:1'' [1] = Inr (Some [(1, [])])"
  by code_simp

text \<open>
  C4.  A provider that raises for the witness C: \<open>get_parents\<close> returns \<open>None\<close>,
  without a partial map, and the build of the unit then raises \<open>TypeError\<close> at the
  row of C, where \<open>draw_diagram\<close> subscripts that \<open>None\<close>; no diagram is written.
\<close>

theorem provider_failure_ends_build:
  "get_parents example_ol failing_coh ''C'' ''a'' (Some ''A'') ''1:1'' [3] = Inr None \<and>
   get_parents example_ol failing_coh ''B'' ''b'' (Some ''A'') ''1:1'' [3] =
     Inr (Some [(3, [(Some ''A'', 1, 1)])]) \<and>
   TextualFlow example_ol failing_coh example_db [] ''1:1'' [3] False [] = ([], Some TypeError)"
  by code_simp

end
